theory Spec2Isabelle
  imports Main
begin

section \<open>The persistent store\<close>

text \<open>
  The importer \<open>createContactsFromCSV\<close> of
  \<^verbatim>\<open>apps/web/modules/ee/contacts/lib/contacts.ts\<close> talks to a relational store through
  an object-relational mapper. The store is modelled as three tables, each a list of rows in
  insertion order, and a counter from which fresh identifiers are drawn (the source draws
  collision-free opaque identifiers; creation and update timestamps are left out).
\<close>

type_synonym id = nat
type_synonym environmentId = string

record contactRow =
  c_id :: id
  c_environmentId :: environmentId

record contactAttributeKeyRow =
  k_id :: id
  k_key :: string
  k_name :: string
  k_environmentId :: environmentId

record contactAttributeRow =
  a_contactId :: id
  a_attributeKeyId :: id
  a_value :: string

record store =
  contact :: "contactRow list"
  contactAttributeKey :: "contactAttributeKeyRow list"
  contactAttribute :: "contactAttributeRow list"
  nextId :: id

text \<open>What the source can throw. The final \<open>catch\<close> of the importer turns a known request
  error of the mapper into a \<open>DatabaseError\<close> and rethrows everything else.\<close>

datatype error =
    ValidationError string
  | DatabaseError string
  | PrismaClientKnownRequestError string
  | PrismaClientValidationError

datatype duplicateContactsAction = Skip | Update | Overwrite

text \<open>A row of the parsed CSV is a \<open>Record<string, string>\<close>: its entries in the order
  \<open>Object.entries\<close> yields them.\<close>

type_synonym csvRecord = "(string \<times> string) list"

text \<open>A contact as the nested writes return it (\<open>include: attributes\<close> with the key name and
  the value of every attribute).\<close>

record tContact =
  t_id :: id
  t_environmentId :: environmentId
  t_attributes :: "(string \<times> string) list"

text \<open>A contact as the first lookup selects it: its id, and for every attribute the key name,
  the key id and the value.\<close>

type_synonym existingContact = "id \<times> (string \<times> id \<times> string) list"

text \<open>The input schemas live in \<^verbatim>\<open>../types/contact\<close> and \<^verbatim>\<open>@formbricks/types/common\<close>,
  outside the files at hand; they are parameters of the model.\<close>

record schemas =
  ZContactCSVUploadResponse :: "csvRecord list \<Rightarrow> bool"
  ZId :: "string \<Rightarrow> bool"
  ZContactCSVDuplicateAction :: "duplicateContactsAction \<Rightarrow> bool"
  ZContactCSVAttributeMap :: "(string \<times> string) list \<Rightarrow> bool"

section \<open>Queries\<close>

text \<open>The relation \<open>attributeKey\<close> of an attribute row: the key row with the referenced id.\<close>

definition attributeKeyOf :: "store \<Rightarrow> contactAttributeRow \<Rightarrow> contactAttributeKeyRow option" where
  "attributeKeyOf s a = find (\<lambda>k. k_id k = a_attributeKeyId a) (contactAttributeKey s)"

text \<open>The relation \<open>attributes\<close> of a contact.\<close>

definition attributesOf :: "store \<Rightarrow> id \<Rightarrow> contactAttributeRow list" where
  "attributesOf s cid = filter (\<lambda>a. a_contactId a = cid) (contactAttribute s)"

definition hasKey :: "store \<Rightarrow> string \<Rightarrow> contactAttributeRow \<Rightarrow> bool" where
  "hasKey s key a = (case attributeKeyOf s a of Some k \<Rightarrow> k_key k = key | None \<Rightarrow> False)"

definition hasKeyIn :: "store \<Rightarrow> string \<Rightarrow> environmentId \<Rightarrow> contactAttributeRow \<Rightarrow> bool" where
  "hasKeyIn s key env a =
     (case attributeKeyOf s a of
        Some k \<Rightarrow> k_key k = key \<and> k_environmentId k = env
      | None \<Rightarrow> False)"

text \<open>\<open>select: { attributeKey: { select: { key, id } }, value }\<close>\<close>

definition selectKeyIdValue :: "store \<Rightarrow> id \<Rightarrow> (string \<times> id \<times> string) list" where
  "selectKeyIdValue s cid =
     List.map_filter
       (\<lambda>a. case attributeKeyOf s a of
               Some k \<Rightarrow> Some (k_key k, k_id k, a_value a)
             | None \<Rightarrow> None)
       (attributesOf s cid)"

text \<open>\<open>include: { attributes: { select: { attributeKey: { select: { key } }, value } } }\<close>\<close>

definition includeAttributes :: "store \<Rightarrow> id \<Rightarrow> (string \<times> string) list" where
  "includeAttributes s cid =
     List.map_filter
       (\<lambda>a. case attributeKeyOf s a of
               Some k \<Rightarrow> Some (k_key k, a_value a)
             | None \<Rightarrow> None)
       (attributesOf s cid)"

definition toContact :: "store \<Rightarrow> contactRow \<Rightarrow> tContact" where
  "toContact s c =
     \<lparr>t_id = c_id c, t_environmentId = c_environmentId c,
      t_attributes = includeAttributes s (c_id c)\<rparr>"

text \<open>\<open>prisma.contact.findMany\<close> of the importer: the contacts of the environment that have
  some attribute of key \<open>email\<close> with a value among \<open>csvEmails\<close>.\<close>

definition contact_findMany :: "store \<Rightarrow> environmentId \<Rightarrow> string list \<Rightarrow> existingContact list" where
  "contact_findMany s env emails =
     map (\<lambda>c. (c_id c, selectKeyIdValue s (c_id c)))
       (filter
          (\<lambda>c. c_environmentId c = env \<and>
               (\<exists>a \<in> set (attributesOf s (c_id c)). hasKey s ''email'' a \<and> a_value a \<in> set emails))
          (contact s))"

text \<open>\<open>prisma.contactAttribute.findMany\<close> of the importer: the values of the attributes whose
  key is \<open>userId\<close> in the environment and whose value is among \<open>csvUserIds\<close>.\<close>

definition contactAttribute_findMany :: "store \<Rightarrow> environmentId \<Rightarrow> string list \<Rightarrow> string list" where
  "contactAttribute_findMany s env userIds =
     map a_value
       (filter (\<lambda>a. hasKeyIn s ''userId'' env a \<and> a_value a \<in> set userIds) (contactAttribute s))"

text \<open>\<open>prisma.contactAttributeKey.findMany({ where: { environmentId } })\<close>\<close>

definition contactAttributeKey_findMany :: "store \<Rightarrow> environmentId \<Rightarrow> (string \<times> id) list" where
  "contactAttributeKey_findMany s env =
     map (\<lambda>k. (k_key k, k_id k)) (filter (\<lambda>k. k_environmentId k = env) (contactAttributeKey s))"

text \<open>\<open>prisma.contactAttributeKey.findMany({ where: { key: { in: missingKeys }, environmentId } })\<close>\<close>

definition contactAttributeKey_findManyIn ::
    "store \<Rightarrow> environmentId \<Rightarrow> string list \<Rightarrow> (string \<times> id) list" where
  "contactAttributeKey_findManyIn s env keys =
     map (\<lambda>k. (k_key k, k_id k))
       (filter (\<lambda>k. k_key k \<in> set keys \<and> k_environmentId k = env) (contactAttributeKey s))"

section \<open>Writes\<close>

text \<open>\<open>createMany\<close> with \<open>skipDuplicates: true\<close>: a row whose (key, environment) pair is
  already taken is passed over, every other row is inserted under a fresh id.\<close>

fun contactAttributeKey_createMany ::
    "store \<Rightarrow> (string \<times> string \<times> environmentId) list \<Rightarrow> store" where
  "contactAttributeKey_createMany s [] = s"
| "contactAttributeKey_createMany s ((key, name, env) # ds) =
     (if \<exists>k \<in> set (contactAttributeKey s). k_key k = key \<and> k_environmentId k = env
      then contactAttributeKey_createMany s ds
      else contactAttributeKey_createMany
             (s\<lparr>contactAttributeKey := contactAttributeKey s @
                   [\<lparr>k_id = nextId s, k_key = key, k_name = name, k_environmentId = env\<rparr>],
                nextId := Suc (nextId s)\<rparr>) ds)"

text \<open>\<open>prisma.contactAttribute.deleteMany({ where: { contactId } })\<close>\<close>

definition contactAttribute_deleteMany :: "store \<Rightarrow> id \<Rightarrow> store" where
  "contactAttribute_deleteMany s cid =
     s\<lparr>contactAttribute := filter (\<lambda>a. a_contactId a \<noteq> cid) (contactAttribute s)\<rparr>"

text \<open>The payload of a nested write pairs \<open>attributeKeyMap.get(key)\<close>, which may be
  \<open>undefined\<close>, with the value. The mapper rejects a payload with an undefined key id before
  it touches the store.\<close>

definition checkPayload :: "(id option \<times> string) list \<Rightarrow> (id \<times> string) list option" where
  "checkPayload data = those (map (\<lambda>(kid, v). map_option (\<lambda>i. (i, v)) kid) data)"

text \<open>Nested \<open>upsert\<close> on the compound key (contactId, attributeKeyId): the value of the row
  is replaced when the pair exists, a row is created otherwise.\<close>

fun upsertAttributes ::
    "id \<Rightarrow> (id \<times> string) list \<Rightarrow> contactAttributeRow list \<Rightarrow> contactAttributeRow list" where
  "upsertAttributes cid [] rows = rows"
| "upsertAttributes cid ((kid, v) # us) rows =
     upsertAttributes cid us
       (if \<exists>a \<in> set rows. a_contactId a = cid \<and> a_attributeKeyId a = kid
        then map (\<lambda>a. if a_contactId a = cid \<and> a_attributeKeyId a = kid
                       then a\<lparr>a_value := v\<rparr> else a) rows
        else rows @ [\<lparr>a_contactId = cid, a_attributeKeyId = kid, a_value = v\<rparr>])"

text \<open>Nested \<open>create\<close>: a row per entry, refused as a whole when a (contactId, attributeKeyId)
  pair would occur twice.\<close>

fun createAttributes ::
    "id \<Rightarrow> (id \<times> string) list \<Rightarrow> contactAttributeRow list \<Rightarrow> error + contactAttributeRow list" where
  "createAttributes cid [] rows = Inr rows"
| "createAttributes cid ((kid, v) # us) rows =
     (if \<exists>a \<in> set rows. a_contactId a = cid \<and> a_attributeKeyId a = kid
      then Inl (PrismaClientKnownRequestError ''Unique constraint failed'')
      else createAttributes cid us
             (rows @ [\<lparr>a_contactId = cid, a_attributeKeyId = kid, a_value = v\<rparr>]))"

text \<open>\<open>prisma.contact.update\<close> with \<open>attributes: { upsert }\<close>. A nested write is one
  transaction: when it fails the store is as before.\<close>

definition contact_update_upsert ::
    "store \<Rightarrow> id \<Rightarrow> (id option \<times> string) list \<Rightarrow> (error + tContact) \<times> store" where
  "contact_update_upsert s cid data =
     (case checkPayload data of
        None \<Rightarrow> (Inl PrismaClientValidationError, s)
      | Some d \<Rightarrow>
          (case find (\<lambda>c. c_id c = cid) (contact s) of
             None \<Rightarrow> (Inl (PrismaClientKnownRequestError ''Record to update not found''), s)
           | Some c \<Rightarrow>
               (let s' = s\<lparr>contactAttribute := upsertAttributes cid d (contactAttribute s)\<rparr>
                in (Inr (toContact s' c), s'))))"

text \<open>\<open>prisma.contact.update\<close> with \<open>attributes: { create }\<close>\<close>

definition contact_update_create ::
    "store \<Rightarrow> id \<Rightarrow> (id option \<times> string) list \<Rightarrow> (error + tContact) \<times> store" where
  "contact_update_create s cid data =
     (case checkPayload data of
        None \<Rightarrow> (Inl PrismaClientValidationError, s)
      | Some d \<Rightarrow>
          (case find (\<lambda>c. c_id c = cid) (contact s) of
             None \<Rightarrow> (Inl (PrismaClientKnownRequestError ''Record to update not found''), s)
           | Some c \<Rightarrow>
               (case createAttributes cid d (contactAttribute s) of
                  Inl e \<Rightarrow> (Inl e, s)
                | Inr rows \<Rightarrow>
                    (let s' = s\<lparr>contactAttribute := rows\<rparr>
                     in (Inr (toContact s' c), s')))))"

text \<open>\<open>prisma.contact.create\<close> with \<open>attributes: { create }\<close>\<close>

definition contact_create ::
    "store \<Rightarrow> environmentId \<Rightarrow> (id option \<times> string) list \<Rightarrow> (error + tContact) \<times> store" where
  "contact_create s env data =
     (case checkPayload data of
        None \<Rightarrow> (Inl PrismaClientValidationError, s)
      | Some d \<Rightarrow>
          (let c = \<lparr>c_id = nextId s, c_environmentId = env\<rparr>
           in case createAttributes (c_id c) d (contactAttribute s) of
                Inl e \<Rightarrow> (Inl e, s)
              | Inr rows \<Rightarrow>
                  (let s' = s\<lparr>contact := contact s @ [c], contactAttribute := rows,
                              nextId := Suc (nextId s)\<rparr>
                   in (Inr (toContact s' c), s'))))"

section \<open>The importer\<close>

text \<open>\<open>Array.from(new Set(xs))\<close>: the distinct elements in order of first occurrence.\<close>

fun newSet :: "'a list \<Rightarrow> 'a list" where
  "newSet [] = []"
| "newSet (x # xs) = x # newSet (filter (\<lambda>y. y \<noteq> x) xs)"

text \<open>\<open>record[key]\<close> when it is truthy: present and not the empty string.\<close>

definition truthy :: "csvRecord \<Rightarrow> string \<Rightarrow> string option" where
  "truthy r key = (case map_of r key of Some v \<Rightarrow> (if v = [] then None else Some v) | None \<Rightarrow> None)"

definition csvEmails :: "csvRecord list \<Rightarrow> string list" where
  "csvEmails csvData = newSet (List.map_filter (\<lambda>r. truthy r ''email'') csvData)"

definition csvUserIds :: "csvRecord list \<Rightarrow> string list" where
  "csvUserIds csvData = newSet (List.map_filter (\<lambda>r. truthy r ''userId'') csvData)"

definition existingContactsByEmail :: "store \<Rightarrow> environmentId \<Rightarrow> csvRecord list \<Rightarrow> existingContact list" where
  "existingContactsByEmail s env csvData = contact_findMany s env (csvEmails csvData)"

text \<open>The map from emails to existing contacts: every contact found is entered under the
  value of its first attribute of key \<open>email\<close>; a later contact replaces an earlier one.\<close>

definition setEmail ::
    "(string \<rightharpoonup> existingContact) \<Rightarrow> existingContact \<Rightarrow> (string \<rightharpoonup> existingContact)" where
  "setEmail m c =
     (case find (\<lambda>(key, kid, v). key = ''email'') (snd c) of
        Some (key, kid, v) \<Rightarrow> m(v \<mapsto> c)
      | None \<Rightarrow> m)"

definition emailToContactMap ::
    "store \<Rightarrow> environmentId \<Rightarrow> csvRecord list \<Rightarrow> (string \<rightharpoonup> existingContact)" where
  "emailToContactMap s env csvData = foldl setEmail Map.empty (existingContactsByEmail s env csvData)"

definition existingUserIds :: "store \<Rightarrow> environmentId \<Rightarrow> csvRecord list \<Rightarrow> string list" where
  "existingUserIds s env csvData =
     (if csvUserIds csvData \<noteq> [] then contactAttribute_findMany s env (csvUserIds csvData) else [])"

text \<open>Filling \<open>attributeKeyMap\<close> with \<open>set\<close>, row by row.\<close>

definition setAll :: "(string \<rightharpoonup> id) \<Rightarrow> (string \<times> id) list \<Rightarrow> (string \<rightharpoonup> id)" where
  "setAll m rows = foldl (\<lambda>m (key, i). m(key \<mapsto> i)) m rows"

definition existingAttributeKeys :: "store \<Rightarrow> environmentId \<Rightarrow> (string \<rightharpoonup> id)" where
  "existingAttributeKeys s env = setAll Map.empty (contactAttributeKey_findMany s env)"

definition csvKeys :: "csvRecord list \<Rightarrow> string list" where
  "csvKeys csvData = newSet (concat (map (map fst) csvData))"

definition missingKeys :: "store \<Rightarrow> environmentId \<Rightarrow> csvRecord list \<Rightarrow> string list" where
  "missingKeys s env csvData =
     filter (\<lambda>key. existingAttributeKeys s env key = None) (csvKeys csvData)"

text \<open>The reconciliation of the attribute keys: the store after the missing keys have been
  created, and the final \<open>attributeKeyMap\<close>.\<close>

definition createMissingKeys :: "store \<Rightarrow> environmentId \<Rightarrow> csvRecord list \<Rightarrow> store" where
  "createMissingKeys s env csvData =
     (if missingKeys s env csvData \<noteq> []
      then contactAttributeKey_createMany s (map (\<lambda>key. (key, key, env)) (missingKeys s env csvData))
      else s)"

definition attributeKeyMap :: "store \<Rightarrow> environmentId \<Rightarrow> csvRecord list \<Rightarrow> (string \<rightharpoonup> id)" where
  "attributeKeyMap s env csvData =
     (if missingKeys s env csvData \<noteq> []
      then setAll (existingAttributeKeys s env)
             (contactAttributeKey_findManyIn (createMissingKeys s env csvData) env
                (missingKeys s env csvData))
      else existingAttributeKeys s env)"

text \<open>The payload of the nested write of a record, and the result of a nested write as the
  callback hands it back.\<close>

definition payload :: "(string \<rightharpoonup> id) \<Rightarrow> csvRecord \<Rightarrow> (id option \<times> string) list" where
  "payload akm r = map (\<lambda>(key, v). (akm key, v)) r"

definition some :: "(error + tContact) \<times> store \<Rightarrow> (error + tContact option) \<times> store" where
  "some p = (map_sum id Some (fst p), snd p)"

text \<open>The callback that \<open>csvData.map\<close> starts on every record sends at most two requests to
  the store: the branches that create a contact or upsert its attributes send one and hand back
  its result, the overwrite branch sends \<open>deleteMany\<close> and, once that is answered, the update
  with the nested \<open>create\<close>. A callback that has sent its first request either knows what it
  will hand back (\<open>None\<close> stands for the \<open>null\<close> of a record that is passed over), or it is
  past its \<open>deleteMany\<close> and still has the nested \<open>create\<close> for its contact to send.\<close>

datatype suspended =
    Returned "error + tContact option"
  | AfterDeleteMany id "(id option \<times> string) list"

definition returned :: "(error + tContact) \<times> store \<Rightarrow> suspended \<times> store" where
  "returned p = (Returned (map_sum id Some (fst p)), snd p)"

text \<open>The callback up to its first \<open>await\<close>, with the request it sends there.\<close>

definition firstRequest ::
    "environmentId \<Rightarrow> duplicateContactsAction \<Rightarrow> (string \<rightharpoonup> id) \<Rightarrow> (string \<rightharpoonup> existingContact) \<Rightarrow>
     csvRecord \<Rightarrow> store \<Rightarrow> suspended \<times> store" where
  "firstRequest env action akm ecm r s =
     (case truthy r ''email'' of
        None \<Rightarrow> (Returned (Inr None), s)
      | Some email \<Rightarrow>
          (case ecm email of
             Some existing \<Rightarrow>
               (case action of
                  Skip \<Rightarrow> (Returned (Inr None), s)
                | Update \<Rightarrow> returned (contact_update_upsert s (fst existing) (payload akm r))
                | Overwrite \<Rightarrow>
                    (AfterDeleteMany (fst existing) (payload akm r),
                     contactAttribute_deleteMany s (fst existing)))
           | None \<Rightarrow> returned (contact_create s env (payload akm r))))"

text \<open>The rest of the callback, from its first \<open>await\<close> on.\<close>

definition secondRequest :: "suspended \<Rightarrow> store \<Rightarrow> (error + tContact option) \<times> store" where
  "secondRequest p s =
     (case p of
        Returned res \<Rightarrow> (res, s)
      | AfterDeleteMany cid data \<Rightarrow> some (contact_update_create s cid data))"

text \<open>The callbacks are all started before any of them goes on, and they are awaited jointly.
  Every callback runs up to its first \<open>await\<close> and sends its first request; the store answers
  the requests in the order in which they were sent. Then the callbacks go on in that order,
  and those of the overwrite branch send their second request. So the \<open>deleteMany\<close> of every
  record precedes the nested \<open>create\<close> of any record. A callback that fails does not stop the
  others.\<close>

fun firstRequests ::
    "environmentId \<Rightarrow> duplicateContactsAction \<Rightarrow> (string \<rightharpoonup> id) \<Rightarrow> (string \<rightharpoonup> existingContact) \<Rightarrow>
     csvRecord list \<Rightarrow> store \<Rightarrow> suspended list \<times> store" where
  "firstRequests env action akm ecm [] s = ([], s)"
| "firstRequests env action akm ecm (r # rs) s =
     (let (p, s') = firstRequest env action akm ecm r s;
          (ps, s'') = firstRequests env action akm ecm rs s'
      in (p # ps, s''))"

fun secondRequests :: "suspended list \<Rightarrow> store \<Rightarrow> (error + tContact option) list \<times> store" where
  "secondRequests [] s = ([], s)"
| "secondRequests (p # ps) s =
     (let (res, s') = secondRequest p s;
          (ress, s'') = secondRequests ps s'
      in (res # ress, s''))"

definition contactPromises ::
    "environmentId \<Rightarrow> duplicateContactsAction \<Rightarrow> (string \<rightharpoonup> id) \<Rightarrow> (string \<rightharpoonup> existingContact) \<Rightarrow>
     csvRecord list \<Rightarrow> store \<Rightarrow> (error + tContact option) list \<times> store" where
  "contactPromises env action akm ecm csvData s =
     (let (ps, s') = firstRequests env action akm ecm csvData s
      in secondRequests ps s')"

text \<open>\<open>Promise.all\<close>: the first failure, or all the results. In a run of the importer no
  first request fails, and the second requests are answered in the order of the batch, so the
  failure that comes first in time is the first of the list; moreover every failure is the
  same violated unique constraint (\<open>contactPromises_failure\<close> below).\<close>

fun promiseAll :: "(error + 'a) list \<Rightarrow> error + 'a list" where
  "promiseAll [] = Inr []"
| "promiseAll (Inl e # ps) = Inl e"
| "promiseAll (Inr x # ps) = (case promiseAll ps of Inl e \<Rightarrow> Inl e | Inr xs \<Rightarrow> Inr (x # xs))"

text \<open>\<open>results.filter((contact) => contact !== null)\<close>\<close>

definition createdContacts :: "tContact option list \<Rightarrow> tContact list" where
  "createdContacts results = List.map_filter (\<lambda>c. c) results"

text \<open>The \<open>catch\<close> clause of the importer.\<close>

fun catch :: "error \<Rightarrow> error" where
  "catch (PrismaClientKnownRequestError msg) = DatabaseError msg"
| "catch e = e"

text \<open>What the importer hands back once the callbacks are through: the joint \<open>await\<close>, the
  filter, and the \<open>catch\<close> clause around them.\<close>

definition aggregate :: "(error + tContact option) list \<Rightarrow> error + tContact list" where
  "aggregate results =
     (case promiseAll results of
        Inl e \<Rightarrow> Inl (catch e)
      | Inr rs \<Rightarrow> Inr (createdContacts rs))"

text \<open>Modelled from the spec: \<open>validateInputs\<close> of \<^verbatim>\<open>@formbricks/lib/utils/validate\<close> is not
  among the files at hand. A value that violates its schema is a validation error, raised
  before anything else happens.\<close>

definition validateInputs ::
    "schemas \<Rightarrow> csvRecord list \<Rightarrow> environmentId \<Rightarrow> duplicateContactsAction \<Rightarrow> (string \<times> string) list \<Rightarrow> bool" where
  "validateInputs Z csvData env action attributeMap =
     (ZContactCSVUploadResponse Z csvData \<and> ZId Z env \<and>
      ZContactCSVDuplicateAction Z action \<and> ZContactCSVAttributeMap Z attributeMap)"

definition createContactsFromCSV ::
    "schemas \<Rightarrow> csvRecord list \<Rightarrow> environmentId \<Rightarrow> duplicateContactsAction \<Rightarrow> (string \<times> string) list \<Rightarrow>
     store \<Rightarrow> (error + tContact list) \<times> store" where
  "createContactsFromCSV Z csvData env action attributeMap s =
     (if \<not> validateInputs Z csvData env action attributeMap
      then (Inl (ValidationError ''Validation failed''), s)
      else
        (case existingUserIds s env csvData of
           u # us \<Rightarrow>
             (Inl (ValidationError
                (''Contact with userId '' @ u @ '' already exist for this environment'')), s)
         | [] \<Rightarrow>
             (let (results, s') =
                    contactPromises env action (attributeKeyMap s env csvData)
                      (emailToContactMap s env csvData) csvData (createMissingKeys s env csvData)
              in (aggregate results, s'))))"

section \<open>Integrity of the store\<close>

text \<open>Modelled from the spec: the schema of the store is not among the files at hand. The spec
  gives every contact an opaque unique id and every attribute key a unique (scope, key) pair;
  an attribute is a (key, value) pair whose key refers to an attribute key of the owning scope;
  the importer itself addresses an attribute through the compound unique key
  \<open>contactId_attributeKeyId\<close>. Identifiers are drawn fresh, so every id in use lies below the
  counter.\<close>

definition primaryKeys :: "store \<Rightarrow> bool" where
  "primaryKeys s =
     (distinct (map c_id (contact s)) \<and> distinct (map k_id (contactAttributeKey s)))"

definition uniqueKeyPerEnvironment :: "store \<Rightarrow> bool" where
  "uniqueKeyPerEnvironment s =
     distinct (map (\<lambda>k. (k_key k, k_environmentId k)) (contactAttributeKey s))"

definition uniqueContactIdAttributeKeyId :: "store \<Rightarrow> bool" where
  "uniqueContactIdAttributeKeyId s =
     distinct (map (\<lambda>a. (a_contactId a, a_attributeKeyId a)) (contactAttribute s))"

definition idsBelowCounter :: "store \<Rightarrow> bool" where
  "idsBelowCounter s =
     ((\<forall>c \<in> set (contact s). c_id c < nextId s) \<and>
      (\<forall>k \<in> set (contactAttributeKey s). k_id k < nextId s))"

definition foreignKeys :: "store \<Rightarrow> bool" where
  "foreignKeys s =
     (\<forall>a \<in> set (contactAttribute s).
        \<exists>c \<in> set (contact s). \<exists>k \<in> set (contactAttributeKey s).
          c_id c = a_contactId a \<and> k_id k = a_attributeKeyId a \<and>
          k_environmentId k = c_environmentId c)"

definition wf_store :: "store \<Rightarrow> bool" where
  "wf_store s =
     (primaryKeys s \<and> uniqueKeyPerEnvironment s \<and> uniqueContactIdAttributeKeyId s \<and>
      idsBelowCounter s \<and> foreignKeys s)"

text \<open>The keys of a JavaScript object are pairwise different.\<close>

definition wf_record :: "csvRecord \<Rightarrow> bool" where
  "wf_record r = distinct (map fst r)"

section \<open>Views of a run\<close>

text \<open>No two contacts carry the same \<open>userId\<close> value in the environment.\<close>

definition userIdRows :: "store \<Rightarrow> environmentId \<Rightarrow> contactAttributeRow list" where
  "userIdRows s env = filter (hasKeyIn s ''userId'' env) (contactAttribute s)"

definition uniqueUserIds :: "store \<Rightarrow> environmentId \<Rightarrow> bool" where
  "uniqueUserIds s env =
     (\<forall>a \<in> set (userIdRows s env). \<forall>b \<in> set (userIdRows s env).
        a_value a = a_value b \<longrightarrow> a_contactId a = a_contactId b)"

text \<open>The records for which the create, the update or the overwrite branch of the callback
  runs, and what it means that a returned contact is the one of such a record: it is a contact
  of the environment that carries the entries of the record, with the id of the existing
  contact when the email was found, and with an id that no contact of the initial store \<open>s\<close>
  has when it was not.\<close>

definition branchRuns ::
    "duplicateContactsAction \<Rightarrow> (string \<rightharpoonup> existingContact) \<Rightarrow> csvRecord \<Rightarrow> bool" where
  "branchRuns action ecm r =
     (case truthy r ''email'' of
        None \<Rightarrow> False
      | Some email \<Rightarrow> (case ecm email of None \<Rightarrow> True | Some existing \<Rightarrow> action \<noteq> Skip))"

definition returnedFor ::
    "store \<Rightarrow> environmentId \<Rightarrow> (string \<rightharpoonup> existingContact) \<Rightarrow> tContact \<Rightarrow> csvRecord \<Rightarrow> bool" where
  "returnedFor s env ecm c r =
     (t_environmentId c = env \<and> set r \<subseteq> set (t_attributes c) \<and>
      (case truthy r ''email'' of
         None \<Rightarrow> False
       | Some email \<Rightarrow>
           (case ecm email of
              Some existing \<Rightarrow> t_id c = fst existing
            | None \<Rightarrow> t_id c \<notin> c_id ` set (contact s))))"

text \<open>The \<open>userId\<close> values, empty ones included, of the records of a batch that have an
  email: the values that the callbacks may write.\<close>

definition writtenUserIds :: "csvRecord list \<Rightarrow> string list" where
  "writtenUserIds csvData =
     List.map_filter
       (\<lambda>r. case truthy r ''email'' of None \<Rightarrow> None | Some email \<Rightarrow> map_of r ''userId'')
       csvData"

section \<open>Example data\<close>

text \<open>Schemas that accept every input, an empty store, and a store with one contact of the
  environment \<open>env1\<close> that has the attributes \<open>email\<close>, \<open>plan\<close> and \<open>userId\<close>.\<close>

definition anySchemas :: schemas where
  "anySchemas =
     \<lparr>ZContactCSVUploadResponse = (\<lambda>csvData. True), ZId = (\<lambda>i. True),
      ZContactCSVDuplicateAction = (\<lambda>action. True),
      ZContactCSVAttributeMap = (\<lambda>attributeMap. True)\<rparr>"

definition emptyStore :: store where
  "emptyStore = \<lparr>contact = [], contactAttributeKey = [], contactAttribute = [], nextId = 0\<rparr>"

definition exampleStore :: store where
  "exampleStore =
     \<lparr>contact = [\<lparr>c_id = 3, c_environmentId = ''env1''\<rparr>],
      contactAttributeKey =
        [\<lparr>k_id = 0, k_key = ''email'', k_name = ''email'', k_environmentId = ''env1''\<rparr>,
         \<lparr>k_id = 1, k_key = ''plan'', k_name = ''plan'', k_environmentId = ''env1''\<rparr>,
         \<lparr>k_id = 2, k_key = ''userId'', k_name = ''userId'', k_environmentId = ''env1''\<rparr>],
      contactAttribute =
        [\<lparr>a_contactId = 3, a_attributeKeyId = 0, a_value = ''a@x.com''\<rparr>,
         \<lparr>a_contactId = 3, a_attributeKeyId = 1, a_value = ''free''\<rparr>,
         \<lparr>a_contactId = 3, a_attributeKeyId = 2, a_value = ''u1''\<rparr>],
      nextId = 4\<rparr>"

text \<open>The store that the importer leaves behind when it reads, into the empty store, the one
  record \<open>{email: "a@x.com", userId: ""}\<close>: a contact whose \<open>userId\<close> is the empty string.\<close>

definition emptyUserIdStore :: store where
  "emptyUserIdStore =
     \<lparr>contact = [\<lparr>c_id = 2, c_environmentId = ''env1''\<rparr>],
      contactAttributeKey =
        [\<lparr>k_id = 0, k_key = ''email'', k_name = ''email'', k_environmentId = ''env1''\<rparr>,
         \<lparr>k_id = 1, k_key = ''userId'', k_name = ''userId'', k_environmentId = ''env1''\<rparr>],
      contactAttribute =
        [\<lparr>a_contactId = 2, a_attributeKeyId = 0, a_value = ''a@x.com''\<rparr>,
         \<lparr>a_contactId = 2, a_attributeKeyId = 1, a_value = ''''\<rparr>],
      nextId = 3\<rparr>"

section \<open>Notions for the proofs\<close>

text \<open>The attribute row that a nested write makes of an entry of its payload, and the payload
  of a record once every column has found its key id.\<close>

definition attributeRow :: "id \<Rightarrow> id \<times> string \<Rightarrow> contactAttributeRow" where
  "attributeRow cid p = \<lparr>a_contactId = cid, a_attributeKeyId = fst p, a_value = snd p\<rparr>"

definition resolved :: "(string \<rightharpoonup> id) \<Rightarrow> csvRecord \<Rightarrow> (id \<times> string) list" where
  "resolved akm r = map (\<lambda>(key, v). (the (akm key), v)) r"

text \<open>What the callbacks rely on: the store is intact, every key id that \<open>attributeKeyMap\<close>
  hands out belongs to a key of the environment with the name asked for, and every contact in
  \<open>emailToContactMap\<close> is a contact of the environment. A record is covered when its columns
  are pairwise different and all have a key id.\<close>

definition keysResolved :: "store \<Rightarrow> environmentId \<Rightarrow> (string \<rightharpoonup> id) \<Rightarrow> bool" where
  "keysResolved s env akm =
     (\<forall>key i. akm key = Some i \<longrightarrow>
        (\<exists>k \<in> set (contactAttributeKey s). k_id k = i \<and> k_key k = key \<and> k_environmentId k = env))"

definition contactsKnown :: "store \<Rightarrow> environmentId \<Rightarrow> (string \<rightharpoonup> existingContact) \<Rightarrow> bool" where
  "contactsKnown s env ecm =
     (\<forall>email ex. ecm email = Some ex \<longrightarrow>
        (\<exists>c \<in> set (contact s). c_id c = fst ex \<and> c_environmentId c = env))"

definition ready ::
    "environmentId \<Rightarrow> (string \<rightharpoonup> id) \<Rightarrow> (string \<rightharpoonup> existingContact) \<Rightarrow> store \<Rightarrow> bool" where
  "ready env akm ecm s = (wf_store s \<and> keysResolved s env akm \<and> contactsKnown s env ecm)"

definition covered :: "(string \<rightharpoonup> id) \<Rightarrow> csvRecord \<Rightarrow> bool" where
  "covered akm r = (wf_record r \<and> (\<forall>key \<in> fst ` set r. akm key \<noteq> None))"

text \<open>The stores that the writing requests leave behind when nothing fails: after the
  creation of a contact, after the upsert on a contact, and after the nested \<open>create\<close> of the
  overwrite branch has added its rows.\<close>

definition created :: "store \<Rightarrow> environmentId \<Rightarrow> (id \<times> string) list \<Rightarrow> store" where
  "created s env d =
     s\<lparr>contact := contact s @ [\<lparr>c_id = nextId s, c_environmentId = env\<rparr>],
       contactAttribute := contactAttribute s @ map (attributeRow (nextId s)) d,
       nextId := Suc (nextId s)\<rparr>"

definition upserted :: "store \<Rightarrow> id \<Rightarrow> (id \<times> string) list \<Rightarrow> store" where
  "upserted s cid d = s\<lparr>contactAttribute := upsertAttributes cid d (contactAttribute s)\<rparr>"

definition appended :: "store \<Rightarrow> id \<Rightarrow> (id \<times> string) list \<Rightarrow> store" where
  "appended s cid d = s\<lparr>contactAttribute := contactAttribute s @ map (attributeRow cid) d\<rparr>"

text \<open>What a callback of the overwrite branch waits with after its \<open>deleteMany\<close>: the payload
  of a covered record, for a contact of the environment.\<close>

definition pendingOk :: "environmentId \<Rightarrow> (string \<rightharpoonup> id) \<Rightarrow> store \<Rightarrow> suspended \<Rightarrow> bool" where
  "pendingOk env akm s p =
     (case p of
        Returned res \<Rightarrow> True
      | AfterDeleteMany cid data \<Rightarrow>
          (\<exists>r. covered akm r \<and> data = payload akm r) \<and>
          \<lparr>c_id = cid, c_environmentId = env\<rparr> \<in> set (contact s))"

text \<open>The existing contact whose attributes the callback of a record writes, if any.\<close>

definition target ::
    "duplicateContactsAction \<Rightarrow> (string \<rightharpoonup> existingContact) \<Rightarrow> csvRecord \<Rightarrow> id option" where
  "target action ecm r =
     (case truthy r ''email'' of
        None \<Rightarrow> None
      | Some email \<Rightarrow>
          (case ecm email of
             None \<Rightarrow> None
           | Some ex \<Rightarrow> if action = Skip then None else Some (fst ex)))"

text \<open>What a callback hands back for its record: a contact of the environment that carries
  the entries of the record, or a failure, when one of the writing branches runs, and \<open>null\<close>
  otherwise; and what it can be after its first request.\<close>

definition writtenContact ::
    "environmentId \<Rightarrow> (string \<rightharpoonup> existingContact) \<Rightarrow> id \<Rightarrow> tContact \<Rightarrow> csvRecord \<Rightarrow> bool" where
  "writtenContact env ecm n c r =
     (t_environmentId c = env \<and> set r \<subseteq> set (t_attributes c) \<and>
      (case truthy r ''email'' of
         None \<Rightarrow> False
       | Some email \<Rightarrow>
           (case ecm email of
              Some existing \<Rightarrow> t_id c = fst existing
            | None \<Rightarrow> n \<le> t_id c)))"

definition resultOk ::
    "duplicateContactsAction \<Rightarrow> environmentId \<Rightarrow> (string \<rightharpoonup> existingContact) \<Rightarrow> id \<Rightarrow>
     error + tContact option \<Rightarrow> csvRecord \<Rightarrow> bool" where
  "resultOk action env ecm n res r =
     (if branchRuns action ecm r
      then (\<exists>c. res = Inr (Some c) \<and> writtenContact env ecm n c r) \<or> (\<exists>e. res = Inl e)
      else res = Inr None)"

definition pendingFor ::
    "duplicateContactsAction \<Rightarrow> environmentId \<Rightarrow> (string \<rightharpoonup> id) \<Rightarrow> (string \<rightharpoonup> existingContact) \<Rightarrow> id \<Rightarrow>
     suspended \<Rightarrow> csvRecord \<Rightarrow> bool" where
  "pendingFor action env akm ecm n p r =
     (case p of
        Returned res \<Rightarrow> resultOk action env ecm n res r
      | AfterDeleteMany cid d \<Rightarrow>
          action = Overwrite \<and> covered akm r \<and> d = payload akm r \<and>
          target action ecm r = Some cid)"

text \<open>The callbacks that are still to send their nested \<open>create\<close> when every callback has
  sent its first request.\<close>

definition suspends ::
    "duplicateContactsAction \<Rightarrow> (string \<rightharpoonup> existingContact) \<Rightarrow> csvRecord \<Rightarrow> bool" where
  "suspends action ecm r = (action = Overwrite \<and> target action ecm r \<noteq> None)"

section \<open>Basic facts\<close>

lemma wf_exampleStore: "wf_store exampleStore"
  by (simp add: wf_store_def exampleStore_def primaryKeys_def uniqueKeyPerEnvironment_def
      uniqueContactIdAttributeKeyId_def idsBelowCounter_def foreignKeys_def)

lemma wf_emptyStore: "wf_store emptyStore"
  by (simp add: wf_store_def emptyStore_def primaryKeys_def uniqueKeyPerEnvironment_def
      uniqueContactIdAttributeKeyId_def idsBelowCounter_def foreignKeys_def)

subsection \<open>newSet\<close>

lemma set_newSet [simp]: "set (newSet xs) = set xs"
  by (induction xs rule: newSet.induct) auto

lemma distinct_newSet [simp]: "distinct (newSet xs)"
  by (induction xs rule: newSet.induct) auto

subsection \<open>setAll\<close>

lemma setAll_eq: "setAll m rows = m ++ map_of (rev rows)"
  unfolding setAll_def
  by (induction rows arbitrary: m) (auto simp: map_add_def fun_eq_iff split: option.splits)

lemma setAll_Some:
  "setAll m rows key = Some i \<Longrightarrow> (key, i) \<in> set rows \<or> m key = Some i"
  by (auto simp: setAll_eq dest: map_of_SomeD)

lemma setAll_None:
  "setAll m rows key = None \<longleftrightarrow> m key = None \<and> key \<notin> fst ` set rows"
  by (auto simp: setAll_eq map_of_eq_None_iff)

lemma existingAttributeKeys_Some:
  "existingAttributeKeys s env key = Some i \<Longrightarrow>
     \<exists>k \<in> set (contactAttributeKey s). k_id k = i \<and> k_key k = key \<and> k_environmentId k = env"
  by (auto simp: existingAttributeKeys_def contactAttributeKey_findMany_def dest!: setAll_Some)

lemma existingAttributeKeys_None:
  "existingAttributeKeys s env key = None \<longleftrightarrow>
     (\<forall>k \<in> set (contactAttributeKey s). \<not> (k_key k = key \<and> k_environmentId k = env))"
  by (force simp: existingAttributeKeys_def contactAttributeKey_findMany_def setAll_None image_iff)

subsection \<open>createMany\<close>

lemma createMany_contact [simp]:
  "contact (contactAttributeKey_createMany s ds) = contact s"
  by (induction s ds rule: contactAttributeKey_createMany.induct) auto

lemma createMany_contactAttribute [simp]:
  "contactAttribute (contactAttributeKey_createMany s ds) = contactAttribute s"
  by (induction s ds rule: contactAttributeKey_createMany.induct) auto

lemma createMany_nextId: "nextId s \<le> nextId (contactAttributeKey_createMany s ds)"
  by (induction s ds rule: contactAttributeKey_createMany.induct) (auto simp: Suc_leD)

lemma createMany_keys:
  "\<exists>new. contactAttributeKey (contactAttributeKey_createMany s ds) = contactAttributeKey s @ new \<and>
     (\<forall>k \<in> set new. nextId s \<le> k_id k \<and> k_id k < nextId (contactAttributeKey_createMany s ds) \<and>
         (k_key k, k_name k, k_environmentId k) \<in> set ds \<and>
         (\<forall>k' \<in> set (contactAttributeKey s). \<not> (k_key k' = k_key k \<and> k_environmentId k' = k_environmentId k))) \<and>
     distinct (map k_id new) \<and> distinct (map (\<lambda>k. (k_key k, k_environmentId k)) new)"
proof (induction s ds rule: contactAttributeKey_createMany.induct)
  case (1 s)
  then show ?case by simp
next
  case (2 s key name env ds)
  show ?case
  proof (cases "\<exists>k \<in> set (contactAttributeKey s). k_key k = key \<and> k_environmentId k = env")
    case True
    with 2(1) show ?thesis by simp blast
  next
    case False
    let ?row = "\<lparr>k_id = nextId s, k_key = key, k_name = name, k_environmentId = env\<rparr>"
    let ?s = "s\<lparr>contactAttributeKey := contactAttributeKey s @ [?row], nextId := Suc (nextId s)\<rparr>"
    from 2(2)[OF False] obtain new where
      new: "contactAttributeKey (contactAttributeKey_createMany ?s ds) = contactAttributeKey ?s @ new"
        "\<forall>k \<in> set new. nextId ?s \<le> k_id k \<and> k_id k < nextId (contactAttributeKey_createMany ?s ds) \<and>
           (k_key k, k_name k, k_environmentId k) \<in> set ds \<and>
           (\<forall>k' \<in> set (contactAttributeKey ?s). \<not> (k_key k' = k_key k \<and> k_environmentId k' = k_environmentId k))"
        "distinct (map k_id new)" "distinct (map (\<lambda>k. (k_key k, k_environmentId k)) new)"
      by blast
    have le: "Suc (nextId s) \<le> nextId (contactAttributeKey_createMany ?s ds)"
      using createMany_nextId[of ?s ds] by simp
    show ?thesis
      apply (rule exI[of _ "?row # new"])
      using False new le by (auto simp: image_iff)
  qed
qed

subsection \<open>The joint await\<close>

lemma promiseAll_append:
  "promiseAll (xs @ ys) =
     (case promiseAll xs of Inl e \<Rightarrow> Inl e
      | Inr as \<Rightarrow> (case promiseAll ys of Inl e \<Rightarrow> Inl e | Inr bs \<Rightarrow> Inr (as @ bs)))"
  by (induction xs rule: promiseAll.induct) (simp_all split: sum.splits)

lemma aggregate_null:
  "aggregate (xs @ Inr None # ys) = aggregate (xs @ ys)"
  by (simp add: aggregate_def promiseAll_append createdContacts_def List.map_filter_def split: sum.splits)

subsection \<open>The reconciliation of the attribute keys\<close>

lemma createMany_mono:
  "k \<in> set (contactAttributeKey s) \<Longrightarrow> k \<in> set (contactAttributeKey (contactAttributeKey_createMany s ds))"
  using createMany_keys[of s ds] by auto

lemma createMany_present:
  "(key, name, env) \<in> set ds \<Longrightarrow>
   \<exists>k \<in> set (contactAttributeKey (contactAttributeKey_createMany s ds)).
      k_key k = key \<and> k_environmentId k = env"
proof (induction s ds rule: contactAttributeKey_createMany.induct)
  case (1 s)
  then show ?case by simp
next
  case (2 s key' name' env' ds)
  show ?case
  proof (cases "(key, name, env) \<in> set ds")
    case True
    with 2(1,2) show ?thesis by (simp split: if_splits)
  next
    case False
    with 2(3) have eq: "key' = key" "name' = name" "env' = env" by auto
    show ?thesis
    proof (cases "\<exists>k \<in> set (contactAttributeKey s). k_key k = key \<and> k_environmentId k = env")
      case True
      then obtain k where "k \<in> set (contactAttributeKey s)" "k_key k = key" "k_environmentId k = env"
        by blast
      with createMany_mono[of k s ds] True show ?thesis
        unfolding eq by auto
    next
      case False
      let ?row = "\<lparr>k_id = nextId s, k_key = key, k_name = name, k_environmentId = env\<rparr>"
      let ?s = "s\<lparr>contactAttributeKey := contactAttributeKey s @ [?row], nextId := Suc (nextId s)\<rparr>"
      have "?row \<in> set (contactAttributeKey ?s)" by simp
      from createMany_mono[OF this, of ds]
      have mem: "?row \<in> set (contactAttributeKey (contactAttributeKey_createMany ?s ds))" .
      have "k_key ?row = key \<and> k_environmentId ?row = env" by simp
      with mem have "\<exists>k \<in> set (contactAttributeKey (contactAttributeKey_createMany ?s ds)).
          k_key k = key \<and> k_environmentId k = env" by (rule bexI[rotated])
      with False show ?thesis
        unfolding eq by auto
    qed
  qed
qed

lemma createMissingKeys_contact [simp]:
  "contact (createMissingKeys s env csvData) = contact s"
  by (simp add: createMissingKeys_def)

lemma createMissingKeys_contactAttribute [simp]:
  "contactAttribute (createMissingKeys s env csvData) = contactAttribute s"
  by (simp add: createMissingKeys_def)

lemma createMissingKeys_nextId: "nextId s \<le> nextId (createMissingKeys s env csvData)"
  by (simp add: createMissingKeys_def createMany_nextId)

lemma createMissingKeys_keys:
  "\<exists>new. contactAttributeKey (createMissingKeys s env csvData) = contactAttributeKey s @ new \<and>
     (\<forall>k \<in> set new. nextId s \<le> k_id k \<and> k_id k < nextId (createMissingKeys s env csvData) \<and>
         k_key k \<in> set (csvKeys csvData) \<and> k_name k = k_key k \<and> k_environmentId k = env \<and>
         (\<forall>k' \<in> set (contactAttributeKey s). \<not> (k_key k' = k_key k \<and> k_environmentId k' = env))) \<and>
     distinct (map k_id new) \<and> distinct (map (\<lambda>k. (k_key k, k_environmentId k)) new)"
proof (cases "missingKeys s env csvData = []")
  case True
  then show ?thesis by (simp add: createMissingKeys_def)
next
  case False
  let ?ds = "map (\<lambda>key. (key, key, env)) (missingKeys s env csvData)"
  from createMany_keys[of s ?ds] obtain new where new:
    "contactAttributeKey (contactAttributeKey_createMany s ?ds) = contactAttributeKey s @ new"
    "\<forall>k \<in> set new. nextId s \<le> k_id k \<and> k_id k < nextId (contactAttributeKey_createMany s ?ds) \<and>
         (k_key k, k_name k, k_environmentId k) \<in> set ?ds \<and>
         (\<forall>k' \<in> set (contactAttributeKey s). \<not> (k_key k' = k_key k \<and> k_environmentId k' = k_environmentId k))"
    "distinct (map k_id new)" "distinct (map (\<lambda>k. (k_key k, k_environmentId k)) new)"
    by blast
  have "\<forall>k \<in> set new. k_key k \<in> set (csvKeys csvData) \<and> k_name k = k_key k \<and> k_environmentId k = env"
    using new(2) by (auto simp: missingKeys_def)
  with new False show ?thesis
    by (auto simp: createMissingKeys_def intro!: exI[of _ new])
qed

lemma createMissingKeys_mono:
  "k \<in> set (contactAttributeKey s) \<Longrightarrow> k \<in> set (contactAttributeKey (createMissingKeys s env csvData))"
  using createMissingKeys_keys[of s env csvData] by auto

lemma createMissingKeys_present:
  assumes "key \<in> set (csvKeys csvData)"
  shows "\<exists>k \<in> set (contactAttributeKey (createMissingKeys s env csvData)).
           k_key k = key \<and> k_environmentId k = env"
proof (cases "existingAttributeKeys s env key")
  case None
  then have m: "key \<in> set (missingKeys s env csvData)"
    using assms by (simp add: missingKeys_def)
  then have ne: "missingKeys s env csvData \<noteq> []" by auto
  have "(key, key, env) \<in> set (map (\<lambda>key. (key, key, env)) (missingKeys s env csvData))"
    using m by auto
  from createMany_present[OF this] ne show ?thesis
    by (simp add: createMissingKeys_def)
next
  case (Some i)
  from existingAttributeKeys_Some[OF this] show ?thesis
    using createMissingKeys_mono by blast
qed

lemma attributeKeyMap_Some:
  assumes "attributeKeyMap s env csvData key = Some i"
  shows "\<exists>k \<in> set (contactAttributeKey (createMissingKeys s env csvData)).
           k_id k = i \<and> k_key k = key \<and> k_environmentId k = env"
proof (cases "missingKeys s env csvData = []")
  case True
  with assms have "existingAttributeKeys s env key = Some i"
    by (simp add: attributeKeyMap_def)
  from existingAttributeKeys_Some[OF this] show ?thesis
    using createMissingKeys_mono by blast
next
  case False
  with assms have "setAll (existingAttributeKeys s env)
             (contactAttributeKey_findManyIn (createMissingKeys s env csvData) env
                (missingKeys s env csvData)) key = Some i"
    by (simp add: attributeKeyMap_def)
  from setAll_Some[OF this] show ?thesis
  proof
    assume "(key, i) \<in> set (contactAttributeKey_findManyIn (createMissingKeys s env csvData) env
                (missingKeys s env csvData))"
    then show ?thesis by (auto simp: contactAttributeKey_findManyIn_def)
  next
    assume "existingAttributeKeys s env key = Some i"
    from existingAttributeKeys_Some[OF this] show ?thesis
      using createMissingKeys_mono by blast
  qed
qed

lemma attributeKeyMap_defined:
  assumes "key \<in> set (csvKeys csvData)"
  shows "attributeKeyMap s env csvData key \<noteq> None"
proof (cases "existingAttributeKeys s env key")
  case (Some i)
  then have "setAll (existingAttributeKeys s env) rows key \<noteq> None" for rows
    by (simp add: setAll_None)
  with Some show ?thesis
    by (simp add: attributeKeyMap_def)
next
  case None
  then have m: "key \<in> set (missingKeys s env csvData)"
    using assms by (simp add: missingKeys_def)
  then have ne: "missingKeys s env csvData \<noteq> []" by auto
  from createMissingKeys_present[OF assms, of s env] obtain k where
    k: "k \<in> set (contactAttributeKey (createMissingKeys s env csvData))" "k_key k = key"
       "k_environmentId k = env" by blast
  then have "key \<in> fst ` set (contactAttributeKey_findManyIn (createMissingKeys s env csvData) env
                (missingKeys s env csvData))"
    using m by (force simp: contactAttributeKey_findManyIn_def image_iff)
  then show ?thesis using ne
    by (simp add: attributeKeyMap_def setAll_None)
qed

lemma csvKeys_member: "r \<in> set csvData \<Longrightarrow> key \<in> fst ` set r \<Longrightarrow> key \<in> set (csvKeys csvData)"
  by (auto simp: csvKeys_def)

lemma wf_createMissingKeys:
  assumes "wf_store s"
  shows "wf_store (createMissingKeys s env csvData)"
proof -
  let ?s = "createMissingKeys s env csvData"
  from createMissingKeys_keys[of s env csvData] obtain new where new:
    "contactAttributeKey ?s = contactAttributeKey s @ new"
    "\<forall>k \<in> set new. nextId s \<le> k_id k \<and> k_id k < nextId ?s \<and>
         k_key k \<in> set (csvKeys csvData) \<and> k_name k = k_key k \<and> k_environmentId k = env \<and>
         (\<forall>k' \<in> set (contactAttributeKey s). \<not> (k_key k' = k_key k \<and> k_environmentId k' = env))"
    "distinct (map k_id new)" "distinct (map (\<lambda>k. (k_key k, k_environmentId k)) new)"
    by blast
  have le: "nextId s \<le> nextId ?s" by (rule createMissingKeys_nextId)
  from assms have a: "primaryKeys s" "uniqueKeyPerEnvironment s" "uniqueContactIdAttributeKeyId s"
    "idsBelowCounter s" "foreignKeys s" by (simp_all add: wf_store_def)
  have "primaryKeys ?s"
    using a(1,4) new(1,2,3) by (fastforce simp: primaryKeys_def idsBelowCounter_def)
  moreover have "uniqueKeyPerEnvironment ?s"
    using a(2) new(1,2,4) by (fastforce simp: uniqueKeyPerEnvironment_def)
  moreover have "uniqueContactIdAttributeKeyId ?s"
    using a(3) by (simp add: uniqueContactIdAttributeKeyId_def)
  moreover have "idsBelowCounter ?s"
    using a(4) new(1,2) le by (fastforce simp: idsBelowCounter_def)
  moreover have "foreignKeys ?s"
    using a(5) new(1) by (fastforce simp: foreignKeys_def)
  ultimately show ?thesis by (simp add: wf_store_def)
qed

subsection \<open>The callbacks leave the attribute keys alone\<close>

lemma contact_update_upsert_keys [simp]:
  "contactAttributeKey (snd (contact_update_upsert s cid data)) = contactAttributeKey s"
  by (simp add: contact_update_upsert_def Let_def split: option.splits)

lemma contact_update_create_keys [simp]:
  "contactAttributeKey (snd (contact_update_create s cid data)) = contactAttributeKey s"
  by (simp add: contact_update_create_def Let_def split: option.splits sum.splits)

lemma contact_create_keys [simp]:
  "contactAttributeKey (snd (contact_create s env data)) = contactAttributeKey s"
  by (simp add: contact_create_def Let_def split: option.splits sum.splits)

lemma deleteMany_keys [simp]:
  "contactAttributeKey (contactAttribute_deleteMany s cid) = contactAttributeKey s"
  by (simp add: contactAttribute_deleteMany_def)

lemma catch_not_ValidationError:
  "(\<forall>msg. e \<noteq> ValidationError msg) \<Longrightarrow> catch e \<noteq> ValidationError msg'"
  by (cases e) auto

subsection \<open>What a run does to the attribute keys\<close>

lemma createContactsFromCSV_reaches:
  assumes "\<forall>msg. fst (createContactsFromCSV Z csvData env action attributeMap s) \<noteq> Inl (ValidationError msg)"
  shows "validateInputs Z csvData env action attributeMap \<and> existingUserIds s env csvData = []"
  using assms
  by (auto simp: createContactsFromCSV_def split: if_splits list.splits)

lemma missingKeys_after:
  "missingKeys (createMissingKeys s env csvData) env csvData = []"
proof -
  have "existingAttributeKeys (createMissingKeys s env csvData) env key \<noteq> None"
    if "key \<in> set (csvKeys csvData)" for key
    using createMissingKeys_present[OF that, of s env]
    by (simp add: existingAttributeKeys_None)
  then show ?thesis
    by (simp add: missingKeys_def filter_empty_conv)
qed

lemma missingKeys_cong:
  "contactAttributeKey s = contactAttributeKey t \<Longrightarrow> missingKeys s env csvData = missingKeys t env csvData"
  by (simp add: missingKeys_def existingAttributeKeys_def contactAttributeKey_findMany_def)

lemma createMissingKeys_idem:
  "contactAttributeKey t = contactAttributeKey (createMissingKeys s env csvData) \<Longrightarrow>
   createMissingKeys t env csvData = t"
proof -
  assume "contactAttributeKey t = contactAttributeKey (createMissingKeys s env csvData)"
  then have "missingKeys t env csvData = []"
    using missingKeys_cong[of t "createMissingKeys s env csvData" env csvData]
    by (simp add: missingKeys_after)
  then show ?thesis by (simp add: createMissingKeys_def)
qed

lemma createMany_all_new:
  "distinct ks \<Longrightarrow>
   \<forall>k \<in> set (contactAttributeKey s). k_environmentId k = env \<longrightarrow> k_key k \<notin> set ks \<Longrightarrow>
   map k_key (filter (\<lambda>k. k_environmentId k = env)
       (contactAttributeKey (contactAttributeKey_createMany s (map (\<lambda>key. (key, key, env)) ks)))) =
     map k_key (filter (\<lambda>k. k_environmentId k = env) (contactAttributeKey s)) @ ks"
proof (induction ks arbitrary: s)
  case Nil
  then show ?case by simp
next
  case (Cons key ks)
  let ?row = "\<lparr>k_id = nextId s, k_key = key, k_name = key, k_environmentId = env\<rparr>"
  let ?s = "s\<lparr>contactAttributeKey := contactAttributeKey s @ [?row], nextId := Suc (nextId s)\<rparr>"
  have no: "\<not> (\<exists>k \<in> set (contactAttributeKey s). k_key k = key \<and> k_environmentId k = env)"
    using Cons.prems(2) by auto
  have "map k_key (filter (\<lambda>k. k_environmentId k = env)
       (contactAttributeKey (contactAttributeKey_createMany ?s (map (\<lambda>key. (key, key, env)) ks)))) =
     map k_key (filter (\<lambda>k. k_environmentId k = env) (contactAttributeKey ?s)) @ ks"
    using Cons.prems by (intro Cons.IH) auto
  moreover have "contactAttributeKey_createMany s (map (\<lambda>key. (key, key, env)) (key # ks)) =
      contactAttributeKey_createMany ?s (map (\<lambda>key. (key, key, env)) ks)"
    using no by (simp del: bex_simps)
  ultimately show ?case by simp
qed

lemma attributeKeyOf_SomeD:
  "attributeKeyOf s a = Some k \<Longrightarrow> k \<in> set (contactAttributeKey s) \<and> k_id k = a_attributeKeyId a"
  by (auto simp: attributeKeyOf_def find_Some_iff)

lemma hasKeyIn_D:
  "hasKeyIn s key env a \<Longrightarrow>
     \<exists>k \<in> set (contactAttributeKey s). k_id k = a_attributeKeyId a \<and> k_key k = key \<and> k_environmentId k = env"
  by (auto simp: hasKeyIn_def split: option.splits dest!: attributeKeyOf_SomeD)

lemma emptyUserIdStore_reached:
  "snd (createContactsFromCSV anySchemas [[(''email'', ''a@x.com''), (''userId'', '''')]] ''env1'' Update []
     emptyStore) = emptyUserIdStore"
  by code_simp

lemma truthy_SomeD: "truthy r key = Some v \<Longrightarrow> map_of r key = Some v \<and> v \<noteq> []"
  by (auto simp: truthy_def split: option.splits if_splits)

lemma csvUserIds_member:
  "r \<in> set csvData \<Longrightarrow> truthy r ''userId'' = Some u \<Longrightarrow> u \<in> set (csvUserIds csvData)"
  by (force simp: csvUserIds_def List.map_filter_def image_iff)

lemma existingUserIds_member:
  assumes "u \<in> set (csvUserIds csvData)" "a \<in> set (contactAttribute s)"
    "hasKeyIn s ''userId'' env a" "a_value a = u"
  shows "u \<in> set (existingUserIds s env csvData)"
proof -
  from assms(1) have "csvUserIds csvData \<noteq> []" by auto
  with assms show ?thesis
    by (auto simp: existingUserIds_def contactAttribute_findMany_def image_iff)
qed

subsection \<open>The nested writes\<close>

lemma those_map_Some:
  "those (map f xs) = Some ys \<longleftrightarrow> (\<forall>x \<in> set xs. f x \<noteq> None) \<and> ys = map (\<lambda>x. the (f x)) xs"
  by (induction xs arbitrary: ys) (auto split: option.splits)

lemma checkPayload_Some:
  "checkPayload (payload akm r) = Some d \<longleftrightarrow>
     (\<forall>key \<in> fst ` set r. akm key \<noteq> None) \<and> d = resolved akm r"
proof -
  let ?f = "\<lambda>p. map_option (\<lambda>i. (i, snd p)) (akm (fst p))"
  have eq: "checkPayload (payload akm r) = those (map ?f r)"
    by (simp add: checkPayload_def payload_def split_beta o_def)
  have a: "(\<forall>x \<in> set r. ?f x \<noteq> None) \<longleftrightarrow> (\<forall>key \<in> fst ` set r. akm key \<noteq> None)"
    by auto
  have b: "map (\<lambda>x. the (?f x)) r = resolved akm r" if "\<forall>key \<in> fst ` set r. akm key \<noteq> None"
    unfolding resolved_def using that by (intro map_cong) auto
  show ?thesis
    unfolding eq those_map_Some a using b by auto
qed

lemma checkPayload_resolved:
  "\<forall>key \<in> fst ` set r. akm key \<noteq> None \<Longrightarrow> checkPayload (payload akm r) = Some (resolved akm r)"
  by (simp add: checkPayload_Some)

lemma createAttributes_eq:
  "createAttributes cid d rows =
     (if distinct (map fst d) \<and>
         (\<forall>a \<in> set rows. a_contactId a = cid \<longrightarrow> a_attributeKeyId a \<notin> fst ` set d)
      then Inr (rows @ map (attributeRow cid) d)
      else Inl (PrismaClientKnownRequestError ''Unique constraint failed''))"
proof (induction cid d rows rule: createAttributes.induct)
  case (1 cid rows)
  then show ?case by simp
next
  case (2 cid kid v us rows)
  show ?case
  proof (cases "\<exists>a \<in> set rows. a_contactId a = cid \<and> a_attributeKeyId a = kid")
    case True
    then show ?thesis by auto
  next
    case False
    then have "createAttributes cid ((kid, v) # us) rows =
        createAttributes cid us (rows @ [\<lparr>a_contactId = cid, a_attributeKeyId = kid, a_value = v\<rparr>])"
      by (simp del: bex_simps)
    also have "\<dots> = (if distinct (map fst us) \<and>
         (\<forall>a \<in> set (rows @ [\<lparr>a_contactId = cid, a_attributeKeyId = kid, a_value = v\<rparr>]).
             a_contactId a = cid \<longrightarrow> a_attributeKeyId a \<notin> fst ` set us)
      then Inr ((rows @ [\<lparr>a_contactId = cid, a_attributeKeyId = kid, a_value = v\<rparr>]) @ map (attributeRow cid) us)
      else Inl (PrismaClientKnownRequestError ''Unique constraint failed''))"
      using False by (intro 2) 
    also have "\<dots> = (if distinct (map fst ((kid, v) # us)) \<and>
         (\<forall>a \<in> set rows. a_contactId a = cid \<longrightarrow> a_attributeKeyId a \<notin> fst ` set ((kid, v) # us))
      then Inr (rows @ map (attributeRow cid) ((kid, v) # us))
      else Inl (PrismaClientKnownRequestError ''Unique constraint failed''))"
      using False by (auto simp: attributeRow_def)
    finally show ?thesis .
  qed
qed

text \<open>One step of the nested upsert.\<close>

lemma upsert_step_pairs:
  "map (\<lambda>a. (a_contactId a, a_attributeKeyId a))
     (if \<exists>a \<in> set rows. a_contactId a = cid \<and> a_attributeKeyId a = kid
      then map (\<lambda>a. if a_contactId a = cid \<and> a_attributeKeyId a = kid then a\<lparr>a_value := v\<rparr> else a) rows
      else rows @ [\<lparr>a_contactId = cid, a_attributeKeyId = kid, a_value = v\<rparr>]) =
   (if (cid, kid) \<in> set (map (\<lambda>a. (a_contactId a, a_attributeKeyId a)) rows)
    then map (\<lambda>a. (a_contactId a, a_attributeKeyId a)) rows
    else map (\<lambda>a. (a_contactId a, a_attributeKeyId a)) rows @ [(cid, kid)])"
  by (auto simp: o_def image_iff)

lemma upsert_step_set:
  "set (if \<exists>a \<in> set rows. a_contactId a = cid \<and> a_attributeKeyId a = kid
      then map (\<lambda>a. if a_contactId a = cid \<and> a_attributeKeyId a = kid then a\<lparr>a_value := v\<rparr> else a) rows
      else rows @ [\<lparr>a_contactId = cid, a_attributeKeyId = kid, a_value = v\<rparr>]) =
   {a \<in> set rows. \<not> (a_contactId a = cid \<and> a_attributeKeyId a = kid)} \<union> {attributeRow cid (kid, v)}"
  by (auto simp: attributeRow_def image_iff)



lemma upsertAttributes_pairs:
  "set (map (\<lambda>a. (a_contactId a, a_attributeKeyId a)) (upsertAttributes cid d rows)) =
     set (map (\<lambda>a. (a_contactId a, a_attributeKeyId a)) rows) \<union> (\<lambda>kid. (cid, kid)) ` fst ` set d"
proof (induction cid d rows rule: upsertAttributes.induct)
  case (1 cid rows)
  then show ?case by simp
next
  case (2 cid kid v us rows)
  show ?case
    unfolding upsertAttributes.simps 2 upsert_step_pairs by auto
qed

lemma upsertAttributes_distinct:
  "distinct (map (\<lambda>a. (a_contactId a, a_attributeKeyId a)) rows) \<Longrightarrow>
   distinct (map (\<lambda>a. (a_contactId a, a_attributeKeyId a)) (upsertAttributes cid d rows))"
proof (induction cid d rows rule: upsertAttributes.induct)
  case (1 cid rows)
  then show ?case by simp
next
  case (2 cid kid v us rows)
  show ?case
    unfolding upsertAttributes.simps
    by (rule 2(1)) (use 2(2) in \<open>simp only: upsert_step_pairs split: if_splits, auto\<close>)
qed


lemma upsertAttributes_set:
  "distinct (map fst d) \<Longrightarrow>
   set (upsertAttributes cid d rows) =
     {a \<in> set rows. \<not> (a_contactId a = cid \<and> a_attributeKeyId a \<in> fst ` set d)} \<union>
     attributeRow cid ` set d"
proof (induction cid d rows rule: upsertAttributes.induct)
  case (1 cid rows)
  then show ?case by simp
next
  case (2 cid kid v us rows)
  from 2(2) have d: "distinct (map fst us)" and n: "\<And>b. (kid, b) \<notin> set us" by force+
  have new: "a_contactId (attributeRow cid (kid, v)) = cid"
    "a_attributeKeyId (attributeRow cid (kid, v)) = kid"
    by (simp_all add: attributeRow_def)
  show ?case
    unfolding upsertAttributes.simps 2(1)[OF d] upsert_step_set
    using n new by (auto simp: image_iff)
qed

subsection \<open>Integrity is kept by the writes\<close>

lemma distinct_map_eqD:
  "distinct (map f xs) \<Longrightarrow> x \<in> set xs \<Longrightarrow> y \<in> set xs \<Longrightarrow> f x = f y \<Longrightarrow> x = y"
  by (meson distinct_map inj_onD)

lemma covered_Some: "covered akm r \<Longrightarrow> (key, v) \<in> set r \<Longrightarrow> \<exists>i. akm key = Some i"
  unfolding covered_def by force

lemma resolved_fst: "map fst (resolved akm r) = map (\<lambda>key. the (akm key)) (map fst r)"
  by (simp add: resolved_def split_beta o_def)

lemma resolved_member:
  "p \<in> set (resolved akm r) \<Longrightarrow> \<exists>key. (key, snd p) \<in> set r \<and> fst p = the (akm key)"
  by (auto simp: resolved_def)

lemma resolved_key:
  assumes "keysResolved s env akm" "covered akm r" "p \<in> set (resolved akm r)"
  shows "\<exists>key k. (key, snd p) \<in> set r \<and> akm key = Some (fst p) \<and> k \<in> set (contactAttributeKey s) \<and>
           k_id k = fst p \<and> k_key k = key \<and> k_environmentId k = env"
proof -
  from resolved_member[OF assms(3)] obtain key where key: "(key, snd p) \<in> set r" "fst p = the (akm key)"
    by blast
  then have "key \<in> fst ` set r" by force
  with assms(2) obtain i where i: "akm key = Some i" by (auto simp: covered_def)
  with assms(1) obtain k where "k \<in> set (contactAttributeKey s)" "k_id k = i" "k_key k = key"
    "k_environmentId k = env" by (auto simp: keysResolved_def)
  with key i show ?thesis by auto
qed

lemma resolved_distinct:
  assumes "primaryKeys s" "keysResolved s env akm" "covered akm r"
  shows "distinct (map fst (resolved akm r))"
proof -
  have "inj_on (\<lambda>key. the (akm key)) (set (map fst r))"
  proof (rule inj_onI)
    fix x y assume x: "x \<in> set (map fst r)" and y: "y \<in> set (map fst r)"
      and eq: "the (akm x) = the (akm y)"
    from x y obtain v w where "(x, v) \<in> set r" "(y, w) \<in> set r" by auto
    from covered_Some[OF assms(3) this(1)] covered_Some[OF assms(3) this(2)]
    obtain i j where ij: "akm x = Some i" "akm y = Some j"
      by auto
    with eq have "i = j" by simp
    from ij assms(2) obtain k k' where
      k: "k \<in> set (contactAttributeKey s)" "k_id k = i" "k_key k = x" and
      k': "k' \<in> set (contactAttributeKey s)" "k_id k' = j" "k_key k' = y"
      unfolding keysResolved_def by blast
    from assms(1) have "distinct (map k_id (contactAttributeKey s))" by (simp add: primaryKeys_def)
    from distinct_map_eqD[OF this k(1) k'(1)] k(2) k'(2) \<open>i = j\<close> have "k = k'" by simp
    with k(3) k'(3) show "x = y" by simp
  qed
  moreover from assms(3) have "distinct (map fst r)" by (simp add: covered_def wf_record_def)
  ultimately have "distinct (map fst r) \<and> inj_on (\<lambda>key. the (akm key)) (set (map fst r))"
    by (rule conjI[rotated])
  then show ?thesis
    unfolding resolved_fst by (rule iffD2[OF distinct_map])
qed

lemma wf_after_rows:
  assumes wf: "wf_store s"
    and same: "contact s' = contact s" "contactAttributeKey s' = contactAttributeKey s"
      "nextId s' = nextId s"
    and uniq: "distinct (map (\<lambda>a. (a_contactId a, a_attributeKeyId a)) (contactAttribute s'))"
    and fk: "\<And>a. a \<in> set (contactAttribute s') \<Longrightarrow>
        \<exists>c \<in> set (contact s). \<exists>k \<in> set (contactAttributeKey s).
          c_id c = a_contactId a \<and> k_id k = a_attributeKeyId a \<and>
          k_environmentId k = c_environmentId c"
  shows "wf_store s'"
  using wf uniq fk unfolding wf_store_def primaryKeys_def uniqueKeyPerEnvironment_def
    uniqueContactIdAttributeKeyId_def idsBelowCounter_def foreignKeys_def same
  by blast

lemma wf_after_create:
  assumes wf: "wf_store s"
    and c: "contact s' = contact s @ [c]" "c_id c = nextId s" "c_environmentId c = env"
    and same: "contactAttributeKey s' = contactAttributeKey s" "nextId s' = Suc (nextId s)"
    and rows: "contactAttribute s' = contactAttribute s @ map (attributeRow (nextId s)) d"
    and d: "distinct (map fst d)"
      "\<And>p. p \<in> set d \<Longrightarrow> \<exists>k \<in> set (contactAttributeKey s). k_id k = fst p \<and> k_environmentId k = env"
  shows "wf_store s'"
proof -
  from wf have a: "primaryKeys s" "uniqueKeyPerEnvironment s" "uniqueContactIdAttributeKeyId s"
    "idsBelowCounter s" "foreignKeys s" by (simp_all add: wf_store_def)
  have old: "a_contactId a < nextId s" if "a \<in> set (contactAttribute s)" for a
    using that a(4,5) by (fastforce simp: idsBelowCounter_def foreignKeys_def)
  have "primaryKeys s'"
    using a(1,4) by (auto simp: primaryKeys_def idsBelowCounter_def c same)
  moreover have "uniqueKeyPerEnvironment s'"
    using a(2) by (simp add: uniqueKeyPerEnvironment_def same)
  moreover have "uniqueContactIdAttributeKeyId s'"
  proof -
    let ?pair = "\<lambda>a. (a_contactId a, a_attributeKeyId a)"
    have new: "map ?pair (map (attributeRow (nextId s)) d) = map (\<lambda>kid. (nextId s, kid)) (map fst d)"
      by (simp add: attributeRow_def o_def)
    have "distinct (map (\<lambda>kid. (nextId s, kid)) (map fst d))"
      using d(1) by (simp add: distinct_map inj_on_def)
    moreover have "set (map ?pair (contactAttribute s)) \<inter> set (map (\<lambda>kid. (nextId s, kid)) (map fst d)) = {}"
      using old by fastforce
    moreover have "distinct (map ?pair (contactAttribute s))"
      using a(3) by (simp add: uniqueContactIdAttributeKeyId_def)
    ultimately have "distinct (map ?pair (contactAttribute s) @ map ?pair (map (attributeRow (nextId s)) d))"
      unfolding new by (simp only: distinct_append simp_thms)
    then show ?thesis
      by (simp add: uniqueContactIdAttributeKeyId_def rows)
  qed
  moreover have "idsBelowCounter s'"
    using a(4) by (auto simp: idsBelowCounter_def c same less_Suc_eq)
  moreover have "foreignKeys s'"
    unfolding foreignKeys_def rows c same
  proof
    fix a assume "a \<in> set (contactAttribute s @ map (attributeRow (nextId s)) d)"
    then consider "a \<in> set (contactAttribute s)" | p where "p \<in> set d" "a = attributeRow (nextId s) p"
      by auto
    then show "\<exists>c' \<in> set (contact s @ [c]). \<exists>k \<in> set (contactAttributeKey s).
          c_id c' = a_contactId a \<and> k_id k = a_attributeKeyId a \<and>
          k_environmentId k = c_environmentId c'"
    proof cases
      case 1
      with a(5) show ?thesis by (fastforce simp: foreignKeys_def)
    next
      case 2
      from d(2)[OF 2(1)] obtain k where "k \<in> set (contactAttributeKey s)" "k_id k = fst p"
        "k_environmentId k = env" by blast
      with 2(2) c show ?thesis
        by (auto simp: attributeRow_def intro!: bexI[of _ k])
    qed
  qed
  ultimately show ?thesis by (simp add: wf_store_def)
qed

subsection \<open>The writing branches in closed form\<close>

lemma find_by_id:
  assumes "primaryKeys s" "c \<in> set (contact s)"
  shows "find (\<lambda>c'. c_id c' = c_id c) (contact s) = Some c"
proof -
  from assms(2) obtain c' where f: "find (\<lambda>c'. c_id c' = c_id c) (contact s) = Some c'"
    by (cases "find (\<lambda>c'. c_id c' = c_id c) (contact s)") (auto simp: find_None_iff)
  then have "c' \<in> set (contact s)" "c_id c' = c_id c"
    by (auto simp: find_Some_iff)
  with assms have "c' = c"
    by (auto simp: primaryKeys_def dest: distinct_map_eqD)
  with f show ?thesis by simp
qed

lemma rows_below_counter:
  "wf_store s \<Longrightarrow> a \<in> set (contactAttribute s) \<Longrightarrow> a_contactId a < nextId s"
  by (fastforce simp: wf_store_def idsBelowCounter_def foreignKeys_def)

lemma contact_create_eq:
  assumes "ready env akm ecm s" "covered akm r"
  shows "contact_create s env (payload akm r) =
           (Inr (toContact (created s env (resolved akm r)) \<lparr>c_id = nextId s, c_environmentId = env\<rparr>),
            created s env (resolved akm r))"
proof -
  from assms(1) have wf: "wf_store s" and kr: "keysResolved s env akm"
    by (simp_all add: ready_def)
  have cp: "checkPayload (payload akm r) = Some (resolved akm r)"
    using assms(2) by (intro checkPayload_resolved) (simp add: covered_def)
  have d: "distinct (map fst (resolved akm r))"
    using wf kr assms(2) by (intro resolved_distinct[of s env]) (simp_all add: wf_store_def)
  have "\<forall>a \<in> set (contactAttribute s). a_contactId a = nextId s \<longrightarrow>
      a_attributeKeyId a \<notin> fst ` set (resolved akm r)"
    using rows_below_counter[OF wf] by fastforce
  with d have "createAttributes (nextId s) (resolved akm r) (contactAttribute s) =
      Inr (contactAttribute s @ map (attributeRow (nextId s)) (resolved akm r))"
    by (simp add: createAttributes_eq)
  then show ?thesis
    by (simp add: contact_create_def cp created_def Let_def)
qed

lemma contact_update_upsert_eq:
  assumes "primaryKeys s" "covered akm r" "c \<in> set (contact s)"
  shows "contact_update_upsert s (c_id c) (payload akm r) =
           (Inr (toContact (upserted s (c_id c) (resolved akm r)) c),
            upserted s (c_id c) (resolved akm r))"
proof -
  have cp: "checkPayload (payload akm r) = Some (resolved akm r)"
    using assms(2) by (intro checkPayload_resolved) (simp add: covered_def)
  show ?thesis
    by (simp add: contact_update_upsert_def cp find_by_id[OF assms(1,3)] upserted_def Let_def)
qed

subsection \<open>The writing branches keep the store intact\<close>

lemma wf_created:
  assumes "ready env akm ecm s" "covered akm r"
  shows "wf_store (created s env (resolved akm r))"
proof -
  from assms(1) have wf: "wf_store s" and kr: "keysResolved s env akm"
    by (simp_all add: ready_def)
  have d: "distinct (map fst (resolved akm r))"
    using wf kr assms(2) by (intro resolved_distinct[of s env]) (simp_all add: wf_store_def)
  show ?thesis
  proof (rule wf_after_create[OF wf _ _ _ _ _ _ d])
    show "contact (created s env (resolved akm r)) =
        contact s @ [\<lparr>c_id = nextId s, c_environmentId = env\<rparr>]"
      by (simp add: created_def)
    show "c_id \<lparr>c_id = nextId s, c_environmentId = env\<rparr> = nextId s" by simp
    show "c_environmentId \<lparr>c_id = nextId s, c_environmentId = env\<rparr> = env" by simp
    show "contactAttributeKey (created s env (resolved akm r)) = contactAttributeKey s"
      by (simp add: created_def)
    show "nextId (created s env (resolved akm r)) = Suc (nextId s)"
      by (simp add: created_def)
    show "contactAttribute (created s env (resolved akm r)) =
        contactAttribute s @ map (attributeRow (nextId s)) (resolved akm r)"
      by (simp add: created_def)
    show "\<exists>k \<in> set (contactAttributeKey s). k_id k = fst p \<and> k_environmentId k = env"
      if "p \<in> set (resolved akm r)" for p
      using resolved_key[OF kr assms(2) that] by blast
  qed
qed

lemma wf_rows_of_contact:
  assumes "ready env akm ecm s" "covered akm r" "c \<in> set (contact s)" "c_environmentId c = env"
    and same: "contact s' = contact s" "contactAttributeKey s' = contactAttributeKey s"
      "nextId s' = nextId s"
    and uniq: "distinct (map (\<lambda>a. (a_contactId a, a_attributeKeyId a)) (contactAttribute s'))"
    and pairs: "set (map (\<lambda>a. (a_contactId a, a_attributeKeyId a)) (contactAttribute s')) \<subseteq>
        set (map (\<lambda>a. (a_contactId a, a_attributeKeyId a)) (contactAttribute s)) \<union>
        (\<lambda>kid. (c_id c, kid)) ` fst ` set (resolved akm r)"
  shows "wf_store s'"
proof -
  from assms(1) have wf: "wf_store s" and kr: "keysResolved s env akm"
    by (simp_all add: ready_def)
  show ?thesis
  proof (rule wf_after_rows[OF wf same uniq])
    fix a assume "a \<in> set (contactAttribute s')"
    then have "(a_contactId a, a_attributeKeyId a) \<in>
        set (map (\<lambda>a. (a_contactId a, a_attributeKeyId a)) (contactAttribute s'))" by force
    with pairs consider a' where "a' \<in> set (contactAttribute s)" "a_contactId a' = a_contactId a"
        "a_attributeKeyId a' = a_attributeKeyId a"
      | p where "p \<in> set (resolved akm r)" "a_contactId a = c_id c" "a_attributeKeyId a = fst p"
      by auto
    then show "\<exists>c \<in> set (contact s). \<exists>k \<in> set (contactAttributeKey s).
          c_id c = a_contactId a \<and> k_id k = a_attributeKeyId a \<and>
          k_environmentId k = c_environmentId c"
    proof cases
      case 1
      with wf show ?thesis by (fastforce simp: wf_store_def foreignKeys_def)
    next
      case 2
      from resolved_key[OF kr assms(2) 2(1)] obtain k where "k \<in> set (contactAttributeKey s)"
        "k_id k = fst p" "k_environmentId k = env" by blast
      with 2 assms(3,4) show ?thesis by auto
    qed
  qed
qed

lemma wf_upserted:
  assumes "ready env akm ecm s" "covered akm r" "c \<in> set (contact s)" "c_environmentId c = env"
  shows "wf_store (upserted s (c_id c) (resolved akm r))"
proof (rule wf_rows_of_contact[OF assms])
  from assms(1) have "distinct (map (\<lambda>a. (a_contactId a, a_attributeKeyId a)) (contactAttribute s))"
    by (simp add: ready_def wf_store_def uniqueContactIdAttributeKeyId_def)
  then show "distinct (map (\<lambda>a. (a_contactId a, a_attributeKeyId a))
      (contactAttribute (upserted s (c_id c) (resolved akm r))))"
    by (simp add: upserted_def upsertAttributes_distinct)
  show "set (map (\<lambda>a. (a_contactId a, a_attributeKeyId a))
        (contactAttribute (upserted s (c_id c) (resolved akm r)))) \<subseteq>
      set (map (\<lambda>a. (a_contactId a, a_attributeKeyId a)) (contactAttribute s)) \<union>
      (\<lambda>kid. (c_id c, kid)) ` fst ` set (resolved akm r)"
    unfolding upserted_def by (simp add: upsertAttributes_pairs del: set_map)
qed (simp_all add: upserted_def)

subsection \<open>The contacts that the callbacks rely on\<close>

lemma known_contact:
  assumes "ready env akm ecm s" "ecm email = Some ex"
  shows "\<lparr>c_id = fst ex, c_environmentId = env\<rparr> \<in> set (contact s)"
proof -
  from assms obtain c where c: "c \<in> set (contact s)" "c_id c = fst ex" "c_environmentId c = env"
    unfolding ready_def contactsKnown_def by blast
  then have "c = \<lparr>c_id = fst ex, c_environmentId = env\<rparr>" by simp
  with c(1) show ?thesis by simp
qed

lemma ready_step:
  assumes "ready env akm ecm s" "wf_store s'" "contactAttributeKey s' = contactAttributeKey s"
    "set (contact s) \<subseteq> set (contact s')"
  shows "ready env akm ecm s'"
proof -
  from assms(1) have kr: "keysResolved s env akm" and ck: "contactsKnown s env ecm"
    by (simp_all add: ready_def)
  from kr have "keysResolved s' env akm"
    by (simp add: keysResolved_def assms(3))
  moreover have "contactsKnown s' env ecm"
    unfolding contactsKnown_def
  proof (intro allI impI)
    fix email ex assume "ecm email = Some ex"
    with ck obtain c where "c \<in> set (contact s)" "c_id c = fst ex" "c_environmentId c = env"
      unfolding contactsKnown_def by blast
    with assms(4) show "\<exists>c \<in> set (contact s'). c_id c = fst ex \<and> c_environmentId c = env"
      by blast
  qed
  ultimately show ?thesis using assms(2) by (simp add: ready_def)
qed

subsection \<open>A run makes the callbacks ready\<close>

lemma foldl_setEmail:
  "foldl setEmail m cs email = Some ex \<Longrightarrow> ex \<in> set cs \<or> m email = Some ex"
proof (induction cs arbitrary: m)
  case Nil
  then show ?case by simp
next
  case (Cons c cs)
  from Cons.IH[OF Cons.prems[simplified]] show ?case
    by (auto simp: setEmail_def split: option.splits if_splits)
qed

lemma emailToContactMap_known:
  "contactsKnown s env (emailToContactMap s env csvData)"
  unfolding contactsKnown_def
proof (intro allI impI)
  fix email ex assume "emailToContactMap s env csvData email = Some ex"
  then have "ex \<in> set (existingContactsByEmail s env csvData)"
    unfolding emailToContactMap_def by (auto dest: foldl_setEmail)
  then show "\<exists>c \<in> set (contact s). c_id c = fst ex \<and> c_environmentId c = env"
    by (auto simp: existingContactsByEmail_def contact_findMany_def)
qed

lemma run_ready:
  assumes "wf_store s"
  shows "ready env (attributeKeyMap s env csvData) (emailToContactMap s env csvData)
           (createMissingKeys s env csvData)"
proof -
  have "keysResolved (createMissingKeys s env csvData) env (attributeKeyMap s env csvData)"
    unfolding keysResolved_def using attributeKeyMap_Some by blast
  moreover have "contactsKnown (createMissingKeys s env csvData) env (emailToContactMap s env csvData)"
    using emailToContactMap_known[of s env csvData] by (simp add: contactsKnown_def)
  ultimately show ?thesis
    using wf_createMissingKeys[OF assms] by (simp add: ready_def)
qed

lemma run_covered:
  assumes "r \<in> set csvData" "wf_record r"
  shows "covered (attributeKeyMap s env csvData) r"
  unfolding covered_def
  using assms attributeKeyMap_defined[OF csvKeys_member[OF assms(1)]] by blast

subsection \<open>The attributes of a contact as the store shows them\<close>

lemma attributeKeyOf_eq:
  assumes "primaryKeys s" "k \<in> set (contactAttributeKey s)" "k_id k = a_attributeKeyId a"
  shows "attributeKeyOf s a = Some k"
proof -
  from assms(2,3) obtain k' where f: "attributeKeyOf s a = Some k'"
    unfolding attributeKeyOf_def
    by (cases "find (\<lambda>k. k_id k = a_attributeKeyId a) (contactAttributeKey s)")
       (auto simp: find_None_iff)
  from attributeKeyOf_SomeD[OF f] assms have "k' = k"
    by (auto simp: primaryKeys_def dest: distinct_map_eqD)
  with f show ?thesis by simp
qed

lemma attributeKeyOf_cong:
  "contactAttributeKey s' = contactAttributeKey s \<Longrightarrow> attributeKeyOf s' a = attributeKeyOf s a"
  by (simp add: attributeKeyOf_def)

lemma map_filter_all_Some:
  "(\<And>x. x \<in> set xs \<Longrightarrow> f x = Some (g x)) \<Longrightarrow> List.map_filter f xs = map g xs"
  by (induction xs) (simp_all add: List.map_filter_simps)

lemma includeAttributes_new_rows:
  assumes pk: "primaryKeys s" and kr: "keysResolved s env akm" and cov: "covered akm r"
    and keys: "contactAttributeKey s' = contactAttributeKey s"
    and rows: "attributesOf s' cid = map (attributeRow cid) (resolved akm r)"
  shows "includeAttributes s' cid = r"
proof -
  have one: "(case attributeKeyOf s' (attributeRow cid (the (akm (fst p)), snd p)) of
               Some k \<Rightarrow> Some (k_key k, a_value (attributeRow cid (the (akm (fst p)), snd p)))
             | None \<Rightarrow> None) = Some p" if "p \<in> set r" for p
  proof -
    from that have "(fst p, snd p) \<in> set r" by simp
    from covered_Some[OF cov this] obtain i where i: "akm (fst p) = Some i" by blast
    with kr obtain k where k: "k \<in> set (contactAttributeKey s)" "k_id k = i" "k_key k = fst p"
      unfolding keysResolved_def by blast
    have "attributeKeyOf s (attributeRow cid (the (akm (fst p)), snd p)) = Some k"
      using k i by (intro attributeKeyOf_eq[OF pk]) (simp_all add: attributeRow_def)
    then show ?thesis
      using k(3) by (simp add: attributeKeyOf_cong[OF keys] attributeRow_def)
  qed
  have "includeAttributes s' cid =
      List.map_filter (\<lambda>p. case attributeKeyOf s' (attributeRow cid (the (akm (fst p)), snd p)) of
               Some k \<Rightarrow> Some (k_key k, a_value (attributeRow cid (the (akm (fst p)), snd p)))
             | None \<Rightarrow> None) r"
    unfolding includeAttributes_def rows resolved_def
    by (simp add: List.map_filter_def o_def split_beta filter_map)
  also have "\<dots> = map (\<lambda>p. p) r"
    by (rule map_filter_all_Some) (rule one)
  finally show ?thesis by simp
qed

lemma attributesOf_created:
  assumes "wf_store s"
  shows "attributesOf (created s env d) (nextId s) = map (attributeRow (nextId s)) d"
proof -
  have "filter (\<lambda>a. a_contactId a = nextId s) (contactAttribute s) = []"
    using rows_below_counter[OF assms] by (fastforce simp: filter_empty_conv)
  then show ?thesis
    by (simp add: attributesOf_def created_def attributeRow_def filter_map o_def)
qed

lemma includeAttributes_member:
  assumes "primaryKeys s"
  shows "(key, v) \<in> set (includeAttributes s cid) \<longleftrightarrow>
     (\<exists>a \<in> set (contactAttribute s). \<exists>k \<in> set (contactAttributeKey s).
        a_contactId a = cid \<and> a_value a = v \<and> k_id k = a_attributeKeyId a \<and> k_key k = key)"
proof
  assume "(key, v) \<in> set (includeAttributes s cid)"
  then obtain a k where "a \<in> set (contactAttribute s)" "a_contactId a = cid"
    "attributeKeyOf s a = Some k" "k_key k = key" "a_value a = v"
    by (auto simp: includeAttributes_def List.map_filter_def attributesOf_def split: option.splits)
  with attributeKeyOf_SomeD[OF this(3)] show "\<exists>a \<in> set (contactAttribute s).
     \<exists>k \<in> set (contactAttributeKey s).
        a_contactId a = cid \<and> a_value a = v \<and> k_id k = a_attributeKeyId a \<and> k_key k = key"
    by blast
next
  assume "\<exists>a \<in> set (contactAttribute s). \<exists>k \<in> set (contactAttributeKey s).
        a_contactId a = cid \<and> a_value a = v \<and> k_id k = a_attributeKeyId a \<and> k_key k = key"
  then obtain a k where a: "a \<in> set (contactAttribute s)" "a_contactId a = cid" "a_value a = v"
    and k: "k \<in> set (contactAttributeKey s)" "k_id k = a_attributeKeyId a" "k_key k = key"
    by blast
  from attributeKeyOf_eq[OF assms k(1,2)] a k(3)
  show "(key, v) \<in> set (includeAttributes s cid)"
    by (force simp: includeAttributes_def List.map_filter_def attributesOf_def image_iff)
qed

lemma distinct_map_filter_inj:
  "distinct xs \<Longrightarrow> (\<And>x y. x \<in> set xs \<Longrightarrow> y \<in> set xs \<Longrightarrow> f x = f y \<Longrightarrow> f x \<noteq> None \<Longrightarrow> x = y) \<Longrightarrow>
   distinct (List.map_filter f xs)"
proof (induction xs)
  case Nil
  then show ?case by (simp add: List.map_filter_simps)
next
  case (Cons x xs)
  have IH: "distinct (List.map_filter f xs)"
    using Cons.prems by (intro Cons.IH) auto
  show ?case
  proof (cases "f x")
    case None
    with IH show ?thesis by (simp add: List.map_filter_simps)
  next
    case (Some y)
    have "y \<notin> set (List.map_filter f xs)"
    proof
      assume "y \<in> set (List.map_filter f xs)"
      then obtain x' where "x' \<in> set xs" "f x' = Some y"
        by (auto simp: List.map_filter_def)
      with Cons.prems(2)[of x x'] Some have "x = x'" by simp
      with \<open>x' \<in> set xs\<close> Cons.prems(1) show False by simp
    qed
    with IH Some show ?thesis by (simp add: List.map_filter_simps)
  qed
qed

lemma includeAttributes_distinct:
  assumes "wf_store s"
  shows "distinct (map fst (includeAttributes s cid))"
proof -
  let ?f = "\<lambda>a. case attributeKeyOf s a of Some k \<Rightarrow> Some (k_key k) | None \<Rightarrow> None"
  from assms have pk: "primaryKeys s" and uk: "uniqueKeyPerEnvironment s"
    and ua: "uniqueContactIdAttributeKeyId s" and fk: "foreignKeys s"
    by (simp_all add: wf_store_def)
  have eq: "map fst (includeAttributes s cid) = List.map_filter ?f (attributesOf s cid)"
    unfolding includeAttributes_def List.map_filter_def
    by (auto simp: o_def split: option.splits intro!: map_cong filter_cong)
  have da: "distinct (attributesOf s cid)"
    using ua unfolding uniqueContactIdAttributeKeyId_def attributesOf_def
    by (simp add: distinct_map)
  have inj: "a = b" if a: "a \<in> set (attributesOf s cid)" and b: "b \<in> set (attributesOf s cid)"
    and e: "?f a = ?f b" and n: "?f a \<noteq> None" for a b
  proof -
    from n e obtain ka kb where ka: "attributeKeyOf s a = Some ka" and kb: "attributeKeyOf s b = Some kb"
      and same: "k_key ka = k_key kb"
      by (auto split: option.splits)
    from a b have ma: "a \<in> set (contactAttribute s)" "a_contactId a = cid"
      and mb: "b \<in> set (contactAttribute s)" "a_contactId b = cid"
      by (simp_all add: attributesOf_def)
    from fk ma(1) obtain c k where c: "c \<in> set (contact s)" "c_id c = a_contactId a"
      and k: "k \<in> set (contactAttributeKey s)" "k_id k = a_attributeKeyId a"
        "k_environmentId k = c_environmentId c"
      unfolding foreignKeys_def by blast
    from fk mb(1) obtain c' k' where c': "c' \<in> set (contact s)" "c_id c' = a_contactId b"
      and k': "k' \<in> set (contactAttributeKey s)" "k_id k' = a_attributeKeyId b"
        "k_environmentId k' = c_environmentId c'"
      unfolding foreignKeys_def by blast
    from attributeKeyOf_eq[OF pk k(1,2)] ka have "k = ka" by simp
    from attributeKeyOf_eq[OF pk k'(1,2)] kb have "k' = kb" by simp
    from c c' ma(2) mb(2) pk have "c = c'"
      by (auto simp: primaryKeys_def dest: distinct_map_eqD)
    with k(3) k'(3) same \<open>k = ka\<close> \<open>k' = kb\<close>
    have "(k_key k, k_environmentId k) = (k_key k', k_environmentId k')" by simp
    with uk k(1) k'(1) have "k = k'"
      unfolding uniqueKeyPerEnvironment_def
      by (auto dest: distinct_map_eqD[where f = "\<lambda>k. (k_key k, k_environmentId k)"])
    with k(2) k'(2) ma(2) mb(2) have "(a_contactId a, a_attributeKeyId a) = (a_contactId b, a_attributeKeyId b)"
      by simp
    with ua ma(1) mb(1) show "a = b"
      unfolding uniqueContactIdAttributeKeyId_def
      by (auto dest: distinct_map_eqD[where f = "\<lambda>a. (a_contactId a, a_attributeKeyId a)"])
  qed
  show ?thesis
    unfolding eq by (rule distinct_map_filter_inj[OF da]) (rule inj)
qed

lemma includeAttributes_upserted:
  assumes rd: "ready env akm ecm s" and cov: "covered akm r"
    and c: "c \<in> set (contact s)" "c_environmentId c = env"
  shows "map_of (includeAttributes (upserted s (c_id c) (resolved akm r)) (c_id c)) =
           map_of (includeAttributes s (c_id c)) ++ map_of r"
proof (rule ext)
  fix key
  let ?cid = "c_id c" and ?d = "resolved akm r"
  let ?s' = "upserted s ?cid ?d"
  from rd have wf: "wf_store s" and kr: "keysResolved s env akm" by (simp_all add: ready_def)
  from wf have pk: "primaryKeys s" by (simp add: wf_store_def)
  have wf': "wf_store ?s'" using rd cov c by (rule wf_upserted)
  then have pk': "primaryKeys ?s'" by (simp add: wf_store_def)
  have keys: "contactAttributeKey ?s' = contactAttributeKey s" by (simp add: upserted_def)
  have d: "distinct (map fst ?d)" using pk kr cov by (rule resolved_distinct)
  have rows: "set (contactAttribute ?s') =
      {a \<in> set (contactAttribute s). \<not> (a_contactId a = ?cid \<and> a_attributeKeyId a \<in> fst ` set ?d)} \<union>
      attributeRow ?cid ` set ?d"
    by (simp add: upserted_def upsertAttributes_set[OF d])
  have dr: "distinct (map fst r)" using cov by (simp add: covered_def wf_record_def)
  note ds = includeAttributes_distinct[OF wf, of ?cid]
  note ds' = includeAttributes_distinct[OF wf', of ?cid]
  have named: "key' = k_key k" if "p \<in> set ?d" "k \<in> set (contactAttributeKey s)" "k_id k = fst p"
    "(key', snd p) \<in> set r" "akm key' = Some (fst p)" for p k key'
  proof -
    from kr that(5) obtain k' where "k' \<in> set (contactAttributeKey s)" "k_id k' = fst p" "k_key k' = key'"
      unfolding keysResolved_def by blast
    with that(2,3) pk have "k' = k" by (auto simp: primaryKeys_def dest: distinct_map_eqD)
    with \<open>k_key k' = key'\<close> show ?thesis by simp
  qed
  show "map_of (includeAttributes ?s' ?cid) key = (map_of (includeAttributes s ?cid) ++ map_of r) key"
  proof (cases "map_of r key")
    case (Some v)
    then have m: "(key, v) \<in> set r" by (rule map_of_SomeD)
    from covered_Some[OF cov m] obtain i where i: "akm key = Some i" by blast
    with kr obtain k where k: "k \<in> set (contactAttributeKey s)" "k_id k = i" "k_key k = key"
      unfolding keysResolved_def by blast
    have "(i, v) \<in> set ?d" using m i by (force simp: resolved_def)
    then have "attributeRow ?cid (i, v) \<in> set (contactAttribute ?s')"
      unfolding rows by blast
    with k have "(key, v) \<in> set (includeAttributes ?s' ?cid)"
      unfolding includeAttributes_member[OF pk'] keys
      by (intro bexI[of _ "attributeRow ?cid (i, v)"] bexI[of _ k]) (simp_all add: attributeRow_def)
    with ds' have "map_of (includeAttributes ?s' ?cid) key = Some v" by simp
    with Some show ?thesis by (simp add: map_add_def)
  next
    case None
    then have nk: "key \<notin> fst ` set r" by (simp add: map_of_eq_None_iff)
    have "(key, v) \<in> set (includeAttributes ?s' ?cid) \<longleftrightarrow> (key, v) \<in> set (includeAttributes s ?cid)" for v
    proof
      assume "(key, v) \<in> set (includeAttributes ?s' ?cid)"
      then obtain a k where a: "a \<in> set (contactAttribute ?s')" "a_contactId a = ?cid" "a_value a = v"
        and k: "k \<in> set (contactAttributeKey s)" "k_id k = a_attributeKeyId a" "k_key k = key"
        unfolding includeAttributes_member[OF pk'] keys by blast
      from a(1) consider "a \<in> set (contactAttribute s)" | p where "p \<in> set ?d" "a = attributeRow ?cid p"
        unfolding rows by blast
      then show "(key, v) \<in> set (includeAttributes s ?cid)"
      proof cases
        case 1
        with a k show ?thesis unfolding includeAttributes_member[OF pk] by blast
      next
        case 2
        from resolved_key[OF kr cov 2(1)] obtain key' where key': "(key', snd p) \<in> set r"
          "akm key' = Some (fst p)" by blast
        from 2(2) k(2) have "k_id k = fst p" by (simp add: attributeRow_def)
        from named[OF 2(1) k(1) this key'] k(3) have "key' = key" by simp
        with key'(1) nk show ?thesis by force
      qed
    next
      assume "(key, v) \<in> set (includeAttributes s ?cid)"
      then obtain a k where a: "a \<in> set (contactAttribute s)" "a_contactId a = ?cid" "a_value a = v"
        and k: "k \<in> set (contactAttributeKey s)" "k_id k = a_attributeKeyId a" "k_key k = key"
        unfolding includeAttributes_member[OF pk] by blast
      have "a_attributeKeyId a \<notin> fst ` set ?d"
      proof
        assume "a_attributeKeyId a \<in> fst ` set ?d"
        then obtain p where p: "p \<in> set ?d" "fst p = a_attributeKeyId a" by auto
        from resolved_key[OF kr cov p(1)] obtain key' where key': "(key', snd p) \<in> set r"
          "akm key' = Some (fst p)" by blast
        from named[OF p(1) k(1) _ key'] k(2,3) p(2) have "key' = key" by simp
        with key'(1) nk show False by force
      qed
      with a(1) have "a \<in> set (contactAttribute ?s')" unfolding rows by blast
      with a k show "(key, v) \<in> set (includeAttributes ?s' ?cid)"
        unfolding includeAttributes_member[OF pk'] keys by blast
    qed
    then have "map_of (includeAttributes ?s' ?cid) key = map_of (includeAttributes s ?cid) key"
      using ds ds'
      by (metis map_of_eq_Some_iff not_None_eq option.exhaust)
    with None show ?thesis by (simp add: map_add_def)
  qed
qed

subsection \<open>Rows that a run does not touch\<close>

lemma find_append_Some:
  "find P xs = Some x \<Longrightarrow> find P (xs @ ys) = Some x"
  by (induction xs) (auto split: if_splits)

lemma attributeKeyOf_extend:
  assumes "foreignKeys s" "a \<in> set (contactAttribute s)"
    "contactAttributeKey s' = contactAttributeKey s @ new"
  shows "attributeKeyOf s' a = attributeKeyOf s a"
proof -
  from assms(1,2) obtain k where "k \<in> set (contactAttributeKey s)" "k_id k = a_attributeKeyId a"
    unfolding foreignKeys_def by blast
  then obtain k' where "find (\<lambda>k. k_id k = a_attributeKeyId a) (contactAttributeKey s) = Some k'"
    by (cases "find (\<lambda>k. k_id k = a_attributeKeyId a) (contactAttributeKey s)")
       (auto simp: find_None_iff)
  then show ?thesis
    by (simp add: attributeKeyOf_def assms(3) find_append_Some)
qed

lemma attributeKeyOf_createMissingKeys:
  assumes "wf_store s" "a \<in> set (contactAttribute s)"
  shows "attributeKeyOf (createMissingKeys s env csvData) a = attributeKeyOf s a"
proof -
  from createMissingKeys_keys[of s env csvData] obtain new where
    "contactAttributeKey (createMissingKeys s env csvData) = contactAttributeKey s @ new" by blast
  with assms show ?thesis
    by (intro attributeKeyOf_extend) (simp_all add: wf_store_def)
qed



subsection \<open>The rows of key userId\<close>

lemma hasKeyIn_cong:
  "contactAttributeKey s' = contactAttributeKey s \<Longrightarrow> hasKeyIn s' key env a = hasKeyIn s key env a"
  by (simp add: hasKeyIn_def attributeKeyOf_def)

lemma hasKeyIn_resolved:
  assumes pk: "primaryKeys s" and kr: "keysResolved s env akm" and cov: "covered akm r"
    and p: "p \<in> set (resolved akm r)" and h: "hasKeyIn s ''userId'' env (attributeRow cid p)"
  shows "map_of r ''userId'' = Some (snd p)"
proof -
  from resolved_key[OF kr cov p] obtain key k where key: "(key, snd p) \<in> set r"
    and k: "k \<in> set (contactAttributeKey s)" "k_id k = fst p" "k_key k = key" by blast
  have "attributeKeyOf s (attributeRow cid p) = Some k"
    using k by (intro attributeKeyOf_eq[OF pk]) (simp_all add: attributeRow_def)
  with h k(3) have "key = ''userId''" by (simp add: hasKeyIn_def)
  moreover from cov have "distinct (map fst r)" by (simp add: covered_def wf_record_def)
  ultimately show ?thesis using key by simp
qed

lemma unique_step:
  assumes pk: "primaryKeys st" and kr: "keysResolved st env akm" and cov: "covered akm r"
    and keys: "contactAttributeKey st' = contactAttributeKey st"
    and rows: "set (contactAttribute st') \<subseteq>
        set (contactAttribute st) \<union> attributeRow cid ` set (resolved akm r)"
    and uniq: "uniqueUserIds st env"
    and vals: "\<forall>a \<in> set (userIdRows st env). a_value a \<in> V"
    and fresh: "\<And>v. map_of r ''userId'' = Some v \<Longrightarrow> v \<notin> V"
  shows "uniqueUserIds st' env \<and>
         (\<forall>a \<in> set (userIdRows st' env). a_value a \<in> V \<union> set_option (map_of r ''userId''))"
proof -
  have split: "a \<in> set (userIdRows st env) \<or>
      (a_contactId a = cid \<and> map_of r ''userId'' = Some (a_value a))"
    if "a \<in> set (userIdRows st' env)" for a
  proof -
    from that have a: "a \<in> set (contactAttribute st')" "hasKeyIn st ''userId'' env a"
      by (simp_all add: userIdRows_def hasKeyIn_cong[OF keys])
    from a(1) rows consider "a \<in> set (contactAttribute st)"
      | p where "p \<in> set (resolved akm r)" "a = attributeRow cid p" by blast
    then show ?thesis
    proof cases
      case 1
      with a(2) show ?thesis by (simp add: userIdRows_def)
    next
      case 2
      from hasKeyIn_resolved[OF pk kr cov 2(1)] a(2) 2(2)
      show ?thesis by (simp add: attributeRow_def)
    qed
  qed
  have "a_contactId a = a_contactId b"
    if a: "a \<in> set (userIdRows st' env)" and b: "b \<in> set (userIdRows st' env)"
      and e: "a_value a = a_value b" for a b
    using split[OF a] split[OF b] e uniq vals fresh
    unfolding uniqueUserIds_def by (metis)
  then have "uniqueUserIds st' env" unfolding uniqueUserIds_def by blast
  moreover have "\<forall>a \<in> set (userIdRows st' env). a_value a \<in> V \<union> set_option (map_of r ''userId'')"
    using split vals by fastforce
  ultimately show ?thesis by blast
qed

lemma writtenUserIds_Cons:
  "writtenUserIds (r # rs) =
     (case truthy r ''email'' of
        None \<Rightarrow> writtenUserIds rs
      | Some email \<Rightarrow> (case map_of r ''userId'' of None \<Rightarrow> writtenUserIds rs
                        | Some v \<Rightarrow> v # writtenUserIds rs))"
  by (simp add: writtenUserIds_def List.map_filter_simps split: option.splits)

lemma userIdRows_createMissingKeys:
  assumes "wf_store s"
  shows "userIdRows (createMissingKeys s env csvData) env = userIdRows s env"
  unfolding userIdRows_def createMissingKeys_contactAttribute
  by (rule filter_cong) (simp_all add: hasKeyIn_def attributeKeyOf_createMissingKeys[OF assms])

lemma writtenUserIds_csvUserIds:
  assumes "v \<in> set (writtenUserIds csvData)" "v \<noteq> []"
  shows "v \<in> set (csvUserIds csvData)"
proof -
  from assms(1) obtain r where "r \<in> set csvData" "map_of r ''userId'' = Some v"
    by (auto simp: writtenUserIds_def List.map_filter_def split: option.splits)
  with assms(2) show ?thesis
    by (auto simp: truthy_def intro!: csvUserIds_member)
qed

lemma unique_createMissingKeys:
  assumes "wf_store s" and "uniqueUserIds s env"
  shows "uniqueUserIds (createMissingKeys s env csvData) env"
proof -
  have rows: "userIdRows (createMissingKeys s env csvData) env = userIdRows s env"
    using assms(1) by (rule userIdRows_createMissingKeys)
  show ?thesis
    using assms(2) by (simp only: uniqueUserIds_def rows)
qed

lemma written_not_in_store:
  assumes "[] \<notin> set (writtenUserIds csvData)" "existingUserIds s env csvData = []"
    "v \<in> set (writtenUserIds csvData)"
  shows "v \<notin> a_value ` set (userIdRows s env)"
proof
  assume "v \<in> a_value ` set (userIdRows s env)"
  then obtain a where a: "a \<in> set (contactAttribute s)" "hasKeyIn s ''userId'' env a" "a_value a = v"
    unfolding userIdRows_def by auto
  from assms(1,3) have "v \<noteq> []" by metis
  from writtenUserIds_csvUserIds[OF assms(3) this]
  have "v \<in> set (existingUserIds s env csvData)"
    using a by (rule existingUserIds_member)
  with assms(2) show False by simp
qed

lemma run_covered_all:
  "list_all wf_record csvData \<Longrightarrow> \<forall>r \<in> set csvData. covered (attributeKeyMap s env csvData) r"
  by (auto simp: list_all_iff intro: run_covered)

subsection \<open>The two rounds of requests\<close>

lemma firstRequests_append:
  "firstRequests env action akm ecm (xs @ ys) s =
     (fst (firstRequests env action akm ecm xs s) @
        fst (firstRequests env action akm ecm ys (snd (firstRequests env action akm ecm xs s))),
      snd (firstRequests env action akm ecm ys (snd (firstRequests env action akm ecm xs s))))"
  by (induction xs arbitrary: s) (simp_all add: split_beta Let_def)

lemma secondRequests_append:
  "secondRequests (ps @ qs) s =
     (fst (secondRequests ps s) @ fst (secondRequests qs (snd (secondRequests ps s))),
      snd (secondRequests qs (snd (secondRequests ps s))))"
  by (induction ps arbitrary: s) (simp_all add: split_beta Let_def)

lemma secondRequest_Returned [simp]: "secondRequest (Returned res) s = (res, s)"
  by (simp add: secondRequest_def)

lemma firstRequest_no_email:
  "truthy r ''email'' = None \<Longrightarrow> firstRequest env action akm ecm r s = (Returned (Inr None), s)"
  by (simp add: firstRequest_def)

lemma firstRequest_skip:
  "truthy r ''email'' = Some email \<Longrightarrow> ecm email = Some ex \<Longrightarrow>
   firstRequest env Skip akm ecm r s = (Returned (Inr None), s)"
  by (simp add: firstRequest_def)

text \<open>A callback that hands back \<open>null\<close> without a request can be taken out of the batch.\<close>

lemma contactPromises_null_at:
  assumes "\<And>s. firstRequest env action akm ecm r s = (Returned (Inr None), s)"
  shows "snd (contactPromises env action akm ecm (pre @ r # post) s) =
           snd (contactPromises env action akm ecm (pre @ post) s) \<and>
         aggregate (fst (contactPromises env action akm ecm (pre @ r # post) s)) =
           aggregate (fst (contactPromises env action akm ecm (pre @ post) s))"
  by (simp add: contactPromises_def firstRequests_append secondRequests_append split_beta assms
      aggregate_null)

subsection \<open>The requests leave the attribute keys alone\<close>

lemma firstRequest_keys [simp]:
  "contactAttributeKey (snd (firstRequest env action akm ecm r s)) = contactAttributeKey s"
  by (simp add: firstRequest_def returned_def split: option.splits duplicateContactsAction.splits)

lemma secondRequest_keys [simp]:
  "contactAttributeKey (snd (secondRequest p s)) = contactAttributeKey s"
  by (cases p) (simp_all add: secondRequest_def some_def)

lemma firstRequests_keys [simp]:
  "contactAttributeKey (snd (firstRequests env action akm ecm rs s)) = contactAttributeKey s"
  by (induction rs arbitrary: s) (simp_all add: split_beta)

lemma secondRequests_keys [simp]:
  "contactAttributeKey (snd (secondRequests ps s)) = contactAttributeKey s"
  by (induction ps arbitrary: s) (simp_all add: split_beta)

lemma contactPromises_keys [simp]:
  "contactAttributeKey (snd (contactPromises env action akm ecm rs s)) = contactAttributeKey s"
  by (simp add: contactPromises_def split_beta)

lemma run_store:
  "snd (createContactsFromCSV Z csvData env action attributeMap s) =
     (if validateInputs Z csvData env action attributeMap \<and> existingUserIds s env csvData = []
      then snd (contactPromises env action (attributeKeyMap s env csvData)
             (emailToContactMap s env csvData) csvData (createMissingKeys s env csvData))
      else s)"
  by (simp add: createContactsFromCSV_def split_beta split: list.splits)

lemma run_result:
  "validateInputs Z csvData env action attributeMap \<Longrightarrow> existingUserIds s env csvData = [] \<Longrightarrow>
   fst (createContactsFromCSV Z csvData env action attributeMap s) =
     aggregate (fst (contactPromises env action (attributeKeyMap s env csvData)
       (emailToContactMap s env csvData) csvData (createMissingKeys s env csvData)))"
  by (simp add: createContactsFromCSV_def split_beta)

lemma createContactsFromCSV_keys:
  "contactAttributeKey (snd (createContactsFromCSV Z csvData env action attributeMap s)) =
     (if validateInputs Z csvData env action attributeMap \<and> existingUserIds s env csvData = []
      then contactAttributeKey (createMissingKeys s env csvData)
      else contactAttributeKey s)"
  by (simp add: run_store)

subsection \<open>The requests in closed form\<close>

lemma firstRequest_create:
  assumes "ready env akm ecm s" "covered akm r" "truthy r ''email'' = Some email" "ecm email = None"
  shows "firstRequest env action akm ecm r s =
           (Returned (Inr (Some (toContact (created s env (resolved akm r))
                         \<lparr>c_id = nextId s, c_environmentId = env\<rparr>))),
            created s env (resolved akm r))"
  using assms(3,4) by (simp add: firstRequest_def contact_create_eq[OF assms(1,2)] returned_def)

lemma firstRequest_update:
  assumes "ready env akm ecm s" "covered akm r" "truthy r ''email'' = Some email"
    "ecm email = Some ex"
  shows "firstRequest env Update akm ecm r s =
           (Returned (Inr (Some (toContact (upserted s (fst ex) (resolved akm r))
                         \<lparr>c_id = fst ex, c_environmentId = env\<rparr>))),
            upserted s (fst ex) (resolved akm r))"
proof -
  from assms(1) have pk: "primaryKeys s" by (simp add: ready_def wf_store_def)
  from contact_update_upsert_eq[OF pk assms(2) known_contact[OF assms(1,4)]] assms(3,4)
  show ?thesis by (simp add: firstRequest_def returned_def)
qed

lemma firstRequest_overwrite:
  "truthy r ''email'' = Some email \<Longrightarrow> ecm email = Some ex \<Longrightarrow>
   firstRequest env Overwrite akm ecm r s =
     (AfterDeleteMany (fst ex) (payload akm r), contactAttribute_deleteMany s (fst ex))"
  by (simp add: firstRequest_def)

lemma secondRequest_create:
  assumes "ready env akm ecm s" "covered akm r" "c \<in> set (contact s)"
  shows "secondRequest (AfterDeleteMany (c_id c) (payload akm r)) s =
           (if \<forall>a \<in> set (contactAttribute s).
                 a_contactId a = c_id c \<longrightarrow> a_attributeKeyId a \<notin> fst ` set (resolved akm r)
            then (Inr (Some (toContact (appended s (c_id c) (resolved akm r)) c)),
                  appended s (c_id c) (resolved akm r))
            else (Inl (PrismaClientKnownRequestError ''Unique constraint failed''), s))"
proof -
  from assms(1) have wf: "wf_store s" and kr: "keysResolved s env akm"
    by (simp_all add: ready_def)
  from wf have pk: "primaryKeys s" by (simp add: wf_store_def)
  have cp: "checkPayload (payload akm r) = Some (resolved akm r)"
    using assms(2) by (intro checkPayload_resolved) (simp add: covered_def)
  have d: "distinct (map fst (resolved akm r))"
    using pk kr assms(2) by (rule resolved_distinct)
  show ?thesis
    using d
    by (simp add: secondRequest_def some_def contact_update_create_def cp
        find_by_id[OF pk assms(3)] createAttributes_eq appended_def Let_def del: bex_simps ball_simps)
qed

subsection \<open>The requests keep the store intact\<close>

lemma wf_deleted:
  assumes "wf_store s"
  shows "wf_store (contactAttribute_deleteMany s cid)"
proof (rule wf_after_rows[OF assms])
  show "distinct (map (\<lambda>a. (a_contactId a, a_attributeKeyId a))
      (contactAttribute (contactAttribute_deleteMany s cid)))"
    using assms
    by (simp add: contactAttribute_deleteMany_def wf_store_def uniqueContactIdAttributeKeyId_def
        distinct_map_filter)
  show "\<exists>c \<in> set (contact s). \<exists>k \<in> set (contactAttributeKey s).
          c_id c = a_contactId a \<and> k_id k = a_attributeKeyId a \<and>
          k_environmentId k = c_environmentId c"
    if "a \<in> set (contactAttribute (contactAttribute_deleteMany s cid))" for a
    using that assms by (simp add: contactAttribute_deleteMany_def wf_store_def foreignKeys_def)
qed (simp_all add: contactAttribute_deleteMany_def)

lemma wf_appended:
  assumes "ready env akm ecm s" "covered akm r" "c \<in> set (contact s)" "c_environmentId c = env"
    and free: "\<forall>a \<in> set (contactAttribute s).
                 a_contactId a = c_id c \<longrightarrow> a_attributeKeyId a \<notin> fst ` set (resolved akm r)"
  shows "wf_store (appended s (c_id c) (resolved akm r))"
proof (rule wf_rows_of_contact[OF assms(1-4)])
  let ?pair = "\<lambda>a. (a_contactId a, a_attributeKeyId a)"
  from assms(1) have wf: "wf_store s" and kr: "keysResolved s env akm"
    by (simp_all add: ready_def)
  have d: "distinct (map fst (resolved akm r))"
    using wf kr assms(2) by (intro resolved_distinct[of s env]) (simp_all add: wf_store_def)
  have new: "map ?pair (map (attributeRow (c_id c)) (resolved akm r)) =
      map (\<lambda>kid. (c_id c, kid)) (map fst (resolved akm r))"
    by (simp add: attributeRow_def o_def)
  have "distinct (map ?pair (contactAttribute s))"
    using wf by (simp add: wf_store_def uniqueContactIdAttributeKeyId_def)
  moreover have "distinct (map (\<lambda>kid. (c_id c, kid)) (map fst (resolved akm r)))"
    using d by (simp add: distinct_map inj_on_def)
  moreover have "set (map ?pair (contactAttribute s)) \<inter>
      set (map (\<lambda>kid. (c_id c, kid)) (map fst (resolved akm r))) = {}"
    using free by fastforce
  ultimately have "distinct (map ?pair (contactAttribute s) @
      map ?pair (map (attributeRow (c_id c)) (resolved akm r)))"
    unfolding new by (simp only: distinct_append simp_thms)
  then show "distinct (map ?pair (contactAttribute (appended s (c_id c) (resolved akm r))))"
    by (simp add: appended_def)
  show "set (map ?pair (contactAttribute (appended s (c_id c) (resolved akm r)))) \<subseteq>
      set (map ?pair (contactAttribute s)) \<union>
      (\<lambda>kid. (c_id c, kid)) ` fst ` set (resolved akm r)"
    by (auto simp: appended_def attributeRow_def)
qed (simp_all add: appended_def)

lemma pendingOk_mono:
  "pendingOk env akm s p \<Longrightarrow> set (contact s) \<subseteq> set (contact s') \<Longrightarrow> pendingOk env akm s' p"
  by (cases p) (auto simp: pendingOk_def)

lemma firstRequest_ready:
  assumes "ready env akm ecm s" "covered akm r"
  shows "ready env akm ecm (snd (firstRequest env action akm ecm r s)) \<and>
         pendingOk env akm (snd (firstRequest env action akm ecm r s))
           (fst (firstRequest env action akm ecm r s)) \<and>
         set (contact s) \<subseteq> set (contact (snd (firstRequest env action akm ecm r s))) \<and>
         nextId s \<le> nextId (snd (firstRequest env action akm ecm r s))"
proof (cases "truthy r ''email''")
  case None
  with assms(1) show ?thesis by (simp add: firstRequest_no_email pendingOk_def)
next
  case (Some email)
  show ?thesis
  proof (cases "ecm email")
    case None
    have "ready env akm ecm (created s env (resolved akm r))"
      using wf_created[OF assms] by (rule ready_step[OF assms(1)]) (auto simp: created_def)
    then show ?thesis
      by (simp add: firstRequest_create[OF assms Some None] pendingOk_def) (auto simp: created_def)
  next
    case ex: (Some ex)
    note c = known_contact[OF assms(1) ex]
    show ?thesis
    proof (cases action)
      case Skip
      with assms(1) show ?thesis
        by (simp add: firstRequest_skip[where ecm = ecm, OF Some ex] pendingOk_def)
    next
      case Update
      have "wf_store (upserted s (c_id \<lparr>c_id = fst ex, c_environmentId = env\<rparr>) (resolved akm r))"
        using assms c by (rule wf_upserted) simp
      then have "ready env akm ecm (upserted s (fst ex) (resolved akm r))"
        by (intro ready_step[OF assms(1)]) (simp_all add: upserted_def)
      then show ?thesis
        by (simp add: Update firstRequest_update[OF assms Some ex] pendingOk_def)
           (simp add: upserted_def)
    next
      case Overwrite
      from assms(1) have "wf_store s" by (simp add: ready_def)
      then have "wf_store (contactAttribute_deleteMany s (fst ex))" by (rule wf_deleted)
      then have "ready env akm ecm (contactAttribute_deleteMany s (fst ex))"
        by (intro ready_step[OF assms(1)]) (simp_all add: contactAttribute_deleteMany_def)
      moreover have "pendingOk env akm (contactAttribute_deleteMany s (fst ex))
          (AfterDeleteMany (fst ex) (payload akm r))"
        using c assms(2) by (auto simp: pendingOk_def contactAttribute_deleteMany_def)
      ultimately show ?thesis
        by (simp add: Overwrite firstRequest_overwrite[where ecm = ecm, OF Some ex])
           (simp add: contactAttribute_deleteMany_def)
    qed
  qed
qed

lemma secondRequest_ready:
  assumes "ready env akm ecm s" "pendingOk env akm s p"
  shows "ready env akm ecm (snd (secondRequest p s)) \<and>
         contact (snd (secondRequest p s)) = contact s \<and>
         nextId (snd (secondRequest p s)) = nextId s"
proof (cases p)
  case (Returned res)
  with assms(1) show ?thesis by simp
next
  case (AfterDeleteMany cid data)
  with assms(2) obtain r where r: "covered akm r" "data = payload akm r"
    and c: "\<lparr>c_id = cid, c_environmentId = env\<rparr> \<in> set (contact s)"
    by (auto simp: pendingOk_def)
  let ?c = "\<lparr>c_id = cid, c_environmentId = env\<rparr>"
  show ?thesis
  proof (cases "\<forall>a \<in> set (contactAttribute s).
                 a_contactId a = cid \<longrightarrow> a_attributeKeyId a \<notin> fst ` set (resolved akm r)")
    case True
    then have free: "\<forall>a \<in> set (contactAttribute s).
                 a_contactId a = c_id ?c \<longrightarrow> a_attributeKeyId a \<notin> fst ` set (resolved akm r)"
      by simp
    have "wf_store (appended s (c_id ?c) (resolved akm r))"
      using assms(1) r(1) c _ free by (rule wf_appended) simp
    then have "ready env akm ecm (appended s cid (resolved akm r))"
      by (intro ready_step[OF assms(1)]) (simp_all add: appended_def)
    moreover have "secondRequest p s =
        (Inr (Some (toContact (appended s cid (resolved akm r)) ?c)), appended s cid (resolved akm r))"
      using secondRequest_create[OF assms(1) r(1) c] True
      by (simp add: AfterDeleteMany r(2))
    ultimately show ?thesis by (simp add: appended_def)
  next
    case False
    have "secondRequest p s = (Inl (PrismaClientKnownRequestError ''Unique constraint failed''), s)"
      using secondRequest_create[OF assms(1) r(1) c] False
      by (simp add: AfterDeleteMany r(2))
    with assms(1) show ?thesis by simp
  qed
qed

lemma firstRequests_ready:
  assumes "ready env akm ecm s" "\<forall>r \<in> set rs. covered akm r"
  shows "ready env akm ecm (snd (firstRequests env action akm ecm rs s)) \<and>
         list_all (pendingOk env akm (snd (firstRequests env action akm ecm rs s)))
           (fst (firstRequests env action akm ecm rs s)) \<and>
         set (contact s) \<subseteq> set (contact (snd (firstRequests env action akm ecm rs s))) \<and>
         nextId s \<le> nextId (snd (firstRequests env action akm ecm rs s))"
  using assms
proof (induction rs arbitrary: s)
  case Nil
  then show ?case by simp
next
  case (Cons r rs)
  from Cons.prems have r: "covered akm r" and rs: "\<forall>r \<in> set rs. covered akm r" by auto
  let ?p = "fst (firstRequest env action akm ecm r s)"
  let ?s = "snd (firstRequest env action akm ecm r s)"
  from firstRequest_ready[OF Cons.prems(1) r, of action]
  have 1: "ready env akm ecm ?s" and 2: "pendingOk env akm ?s ?p"
    and 3: "set (contact s) \<subseteq> set (contact ?s)" and 4: "nextId s \<le> nextId ?s" by blast+
  from Cons.IH[OF 1 rs]
  have 5: "ready env akm ecm (snd (firstRequests env action akm ecm rs ?s))"
    and 6: "list_all (pendingOk env akm (snd (firstRequests env action akm ecm rs ?s)))
           (fst (firstRequests env action akm ecm rs ?s))"
    and 7: "set (contact ?s) \<subseteq> set (contact (snd (firstRequests env action akm ecm rs ?s)))"
    and 8: "nextId ?s \<le> nextId (snd (firstRequests env action akm ecm rs ?s))" by blast+
  from pendingOk_mono[OF 2 7] 3 4 5 6 7 8 show ?case
    by (auto simp: split_beta)
qed

lemma secondRequests_ready:
  assumes "ready env akm ecm s" "list_all (pendingOk env akm s) ps"
  shows "ready env akm ecm (snd (secondRequests ps s)) \<and>
         contact (snd (secondRequests ps s)) = contact s \<and>
         nextId (snd (secondRequests ps s)) = nextId s"
  using assms
proof (induction ps arbitrary: s)
  case Nil
  then show ?case by simp
next
  case (Cons p ps)
  from Cons.prems(2) have p: "pendingOk env akm s p" and ps: "list_all (pendingOk env akm s) ps"
    by simp_all
  let ?s = "snd (secondRequest p s)"
  from secondRequest_ready[OF Cons.prems(1) p]
  have 1: "ready env akm ecm ?s" and 2: "contact ?s = contact s" and 3: "nextId ?s = nextId s"
    by blast+
  have "list_all (pendingOk env akm ?s) ps"
    using ps 2 by (auto simp: list_all_iff intro: pendingOk_mono)
  from Cons.IH[OF 1 this] 2 3 show ?case
    by (simp add: split_beta)
qed

lemma contactPromises_ready:
  assumes "ready env akm ecm s" "\<forall>r \<in> set rs. covered akm r"
  shows "ready env akm ecm (snd (contactPromises env action akm ecm rs s))"
proof -
  from firstRequests_ready[OF assms, of action]
  have "ready env akm ecm (snd (firstRequests env action akm ecm rs s))"
    and "list_all (pendingOk env akm (snd (firstRequests env action akm ecm rs s)))
           (fst (firstRequests env action akm ecm rs s))" by blast+
  from secondRequests_ready[OF this] show ?thesis
    by (simp add: contactPromises_def split_beta)
qed

subsection \<open>The contact that a callback writes to\<close>








subsection \<open>Rows that the requests of other records do not touch\<close>







lemma target_skip [simp]: "target Skip ecm r = None"
  by (simp add: target_def split: option.splits)

subsection \<open>What the callbacks hand back\<close>

lemma includeAttributes_appended:
  assumes rd: "ready env akm ecm s" and cov: "covered akm r"
  shows "set r \<subseteq> set (includeAttributes (appended s cid (resolved akm r)) cid)"
proof
  fix p assume p: "p \<in> set r"
  from rd have pk: "primaryKeys s" and kr: "keysResolved s env akm"
    by (simp_all add: ready_def wf_store_def)
  from pk have pk': "primaryKeys (appended s cid (resolved akm r))"
    by (simp add: primaryKeys_def appended_def)
  from p have "(fst p, snd p) \<in> set r" by simp
  from covered_Some[OF cov this] obtain i where i: "akm (fst p) = Some i" by blast
  with kr obtain k where k: "k \<in> set (contactAttributeKey s)" "k_id k = i" "k_key k = fst p"
    unfolding keysResolved_def by blast
  have "(i, snd p) \<in> set (resolved akm r)"
    using p i by (auto simp: resolved_def image_iff split_beta intro!: bexI[of _ p])
  then have "attributeRow cid (i, snd p) \<in> set (contactAttribute (appended s cid (resolved akm r)))"
    by (simp add: appended_def)
  with k have "(fst p, snd p) \<in> set (includeAttributes (appended s cid (resolved akm r)) cid)"
    unfolding includeAttributes_member[OF pk']
    by (intro bexI[of _ "attributeRow cid (i, snd p)"] bexI[of _ k])
       (simp_all add: attributeRow_def appended_def)
  then show "p \<in> set (includeAttributes (appended s cid (resolved akm r)) cid)" by simp
qed

lemma target_branchRuns: "target action ecm r = Some cid \<Longrightarrow> branchRuns action ecm r"
  by (auto simp: target_def branchRuns_def split: option.splits if_splits)

lemma firstRequest_result:
  assumes rd: "ready env akm ecm st" and cov: "covered akm r" and n: "n \<le> nextId st"
  shows "pendingFor action env akm ecm n (fst (firstRequest env action akm ecm r st)) r"
proof (cases "truthy r ''email''")
  case None
  then show ?thesis
    by (simp add: firstRequest_no_email branchRuns_def pendingFor_def resultOk_def)
next
  case (Some email)
  from rd have wf: "wf_store st" and kr: "keysResolved st env akm" by (simp_all add: ready_def)
  from wf have pk: "primaryKeys st" by (simp add: wf_store_def)
  show ?thesis
  proof (cases "ecm email")
    case None
    have "contactAttributeKey (created st env (resolved akm r)) = contactAttributeKey st"
      by (simp add: created_def)
    with pk kr cov have "includeAttributes (created st env (resolved akm r)) (nextId st) = r"
      by (rule includeAttributes_new_rows) (rule attributesOf_created[OF wf])
    with n show ?thesis
      by (simp add: branchRuns_def Some None firstRequest_create[OF rd cov Some None] toContact_def
          pendingFor_def resultOk_def writtenContact_def)
  next
    case ex: (Some ex)
    let ?c = "\<lparr>c_id = fst ex, c_environmentId = env\<rparr>"
    note c = known_contact[OF rd ex]
    show ?thesis
    proof (cases action)
      case Skip
      then show ?thesis
        by (simp add: branchRuns_def Some ex firstRequest_skip[where ecm = ecm, OF Some ex]
            pendingFor_def resultOk_def)
    next
      case Update
      have m: "map_of (includeAttributes (upserted st (c_id ?c) (resolved akm r)) (c_id ?c)) =
          map_of (includeAttributes st (c_id ?c)) ++ map_of r"
        using rd cov c by (rule includeAttributes_upserted) simp
      have "set r \<subseteq> set (includeAttributes (upserted st (fst ex) (resolved akm r)) (fst ex))"
      proof
        fix p assume p: "p \<in> set r"
        from cov have "distinct (map fst r)" by (simp add: covered_def wf_record_def)
        with p have "map_of r (fst p) = Some (snd p)" by simp
        with m have "map_of (includeAttributes (upserted st (fst ex) (resolved akm r)) (fst ex)) (fst p) =
            Some (snd p)" by (simp add: map_add_def)
        from map_of_SomeD[OF this]
        show "p \<in> set (includeAttributes (upserted st (fst ex) (resolved akm r)) (fst ex))" by simp
      qed
      then show ?thesis
        by (simp add: branchRuns_def Some ex Update firstRequest_update[OF rd cov Some ex] toContact_def
            pendingFor_def resultOk_def writtenContact_def)
    next
      case Overwrite
      then show ?thesis
        by (simp add: firstRequest_overwrite[where ecm = ecm, OF Some ex] pendingFor_def cov
            target_def Some ex)
    qed
  qed
qed

lemma firstRequests_results:
  assumes "ready env akm ecm st" "\<forall>r \<in> set rs. covered akm r" "n \<le> nextId st"
  shows "list_all2 (pendingFor action env akm ecm n) (fst (firstRequests env action akm ecm rs st)) rs"
  using assms
proof (induction rs arbitrary: st)
  case Nil
  then show ?case by simp
next
  case (Cons r rs)
  from Cons.prems have r: "covered akm r" and rs: "\<forall>r \<in> set rs. covered akm r" by auto
  let ?st = "snd (firstRequest env action akm ecm r st)"
  from firstRequest_ready[OF Cons.prems(1) r, of action]
  have rd: "ready env akm ecm ?st" and "nextId st \<le> nextId ?st" by blast+
  with Cons.prems(3) have n: "n \<le> nextId ?st" by simp
  from Cons.IH[OF rd rs n] firstRequest_result[OF Cons.prems(1) r Cons.prems(3), of action]
  show ?case by (simp add: split_beta)
qed

lemma pendingFor_ok:
  assumes "ready env akm ecm s" "pendingFor action env akm ecm n p r"
  shows "pendingOk env akm s p"
proof (cases p)
  case (Returned res)
  then show ?thesis by (simp add: pendingOk_def)
next
  case (AfterDeleteMany cid d)
  with assms(2) have cov: "covered akm r" and d: "d = payload akm r"
    and t: "target action ecm r = Some cid" by (auto simp: pendingFor_def)
  from t obtain email ex where "ecm email = Some ex" "cid = fst ex"
    by (auto simp: target_def split: option.splits if_splits)
  with known_contact[OF assms(1) this(1)] cov d show ?thesis
    by (auto simp: AfterDeleteMany pendingOk_def)
qed

lemma secondRequest_result:
  assumes rd: "ready env akm ecm s" and p: "pendingFor action env akm ecm n p r"
  shows "resultOk action env ecm n (fst (secondRequest p s)) r"
proof (cases p)
  case (Returned res)
  with p show ?thesis by (simp add: pendingFor_def)
next
  case (AfterDeleteMany cid d)
  with p have cov: "covered akm r" and d: "d = payload akm r"
    and t: "target action ecm r = Some cid" by (auto simp: pendingFor_def)
  from t obtain email ex where e: "truthy r ''email'' = Some email" "ecm email = Some ex" "cid = fst ex"
    by (auto simp: target_def split: option.splits if_splits)
  let ?c = "\<lparr>c_id = cid, c_environmentId = env\<rparr>"
  from known_contact[OF rd e(2)] e(3) have c: "?c \<in> set (contact s)" by simp
  from secondRequest_create[OF rd cov c] includeAttributes_appended[OF rd cov, of cid]
  show ?thesis
    by (auto simp: AfterDeleteMany d resultOk_def target_branchRuns[OF t] writtenContact_def
        toContact_def e)
qed

lemma secondRequests_results:
  assumes "ready env akm ecm s" "list_all2 (pendingFor action env akm ecm n) ps rs"
  shows "list_all2 (resultOk action env ecm n) (fst (secondRequests ps s)) rs"
  using assms(2,1)
proof (induction ps rs arbitrary: s rule: list_all2_induct)
  case Nil
  then show ?case by simp
next
  case (Cons p ps r rs)
  from secondRequest_ready[OF Cons.prems pendingFor_ok[OF Cons.prems Cons.hyps(1)]]
  have rd: "ready env akm ecm (snd (secondRequest p s))" by blast
  from Cons.IH[OF rd] secondRequest_result[OF Cons.prems Cons.hyps(1)]
  show ?case by (simp add: split_beta)
qed

lemma contactPromises_results:
  assumes "ready env akm ecm st" "\<forall>r \<in> set rs. covered akm r" "n \<le> nextId st"
  shows "list_all2 (resultOk action env ecm n) (fst (contactPromises env action akm ecm rs st)) rs"
proof -
  from firstRequests_ready[OF assms(1,2), of action]
  have rd: "ready env akm ecm (snd (firstRequests env action akm ecm rs st))" by blast
  from secondRequests_results[OF rd firstRequests_results[OF assms]]
  show ?thesis by (simp add: contactPromises_def split_beta)
qed

lemma aggregate_written:
  assumes "list_all2 (\<lambda>res r. if B r then (\<exists>c. res = Inr (Some c) \<and> Q c r) \<or> (\<exists>e. res = Inl e)
                               else res = Inr None) results rs"
    and "aggregate results = Inr cs"
  shows "list_all2 Q cs (filter B rs)"
  using assms
proof (induction results rs arbitrary: cs rule: list_all2_induct)
  case Nil
  then show ?case by (simp add: aggregate_def createdContacts_def List.map_filter_simps)
next
  case (Cons res results r rs)
  from Cons.prems obtain x xs where x: "res = Inr x" "promiseAll results = Inr xs"
    "cs = createdContacts (x # xs)"
    by (cases res) (auto simp: aggregate_def split: sum.splits)
  then have "aggregate results = Inr (createdContacts xs)" by (simp add: aggregate_def)
  from Cons.IH[OF this] have IH: "list_all2 Q (createdContacts xs) (filter B rs)" .
  show ?case
  proof (cases "B r")
    case True
    with Cons.hyps(1) x(1) obtain c where "x = Some c" "Q c r" by auto
    with True IH x(3) show ?thesis
      by (simp add: createdContacts_def List.map_filter_simps)
  next
    case False
    with Cons.hyps(1) x(1) have "x = None" by simp
    with False IH x(3) show ?thesis
      by (simp add: createdContacts_def List.map_filter_simps)
  qed
qed

subsection \<open>The rows of key userId in the two rounds\<close>

lemma writtenUserIds_Nil [simp]: "writtenUserIds [] = []"
  by (simp add: writtenUserIds_def List.map_filter_simps)

lemma writtenUserIds_filter_subset:
  "set (writtenUserIds (filter P rs)) \<subseteq> set (writtenUserIds rs)"
  by (induction rs) (auto simp: writtenUserIds_Cons split: option.splits)

lemma writtenUserIds_filter_distinct:
  "distinct (writtenUserIds rs) \<Longrightarrow> distinct (writtenUserIds (filter P rs))"
  using writtenUserIds_filter_subset[of P]
  by (induction rs) (auto simp: writtenUserIds_Cons split: option.splits)

lemma writtenUserIds_filter_disjoint:
  "distinct (writtenUserIds rs) \<Longrightarrow>
   set (writtenUserIds (filter P rs)) \<inter> set (writtenUserIds (filter (\<lambda>r. \<not> P r) rs)) = {}"
  using writtenUserIds_filter_subset[of P] writtenUserIds_filter_subset[of "\<lambda>r. \<not> P r"]
  by (induction rs) (auto simp: writtenUserIds_Cons split: option.splits)

lemma covered_Nil: "covered akm []"
  by (simp add: covered_def wf_record_def)

lemma unique_rows_removed:
  assumes pk: "primaryKeys st" and kr: "keysResolved st env akm"
    and keys: "contactAttributeKey st' = contactAttributeKey st"
    and rows: "set (contactAttribute st') \<subseteq> set (contactAttribute st)"
    and uniq: "uniqueUserIds st env"
    and vals: "\<forall>a \<in> set (userIdRows st env). a_value a \<in> V"
  shows "uniqueUserIds st' env \<and> (\<forall>a \<in> set (userIdRows st' env). a_value a \<in> V)"
proof -
  from rows have "set (contactAttribute st') \<subseteq>
      set (contactAttribute st) \<union> attributeRow 0 ` set (resolved akm [])"
    by (simp add: resolved_def)
  from unique_step[OF pk kr covered_Nil keys this uniq vals] show ?thesis by simp
qed

lemma firstRequest_unique:
  assumes rd: "ready env akm ecm st" and cov: "covered akm r"
    and uniq: "uniqueUserIds st env"
    and vals: "\<forall>a \<in> set (userIdRows st env). a_value a \<in> V"
    and fresh: "\<And>v. \<not> suspends action ecm r \<Longrightarrow> truthy r ''email'' \<noteq> None \<Longrightarrow>
                  map_of r ''userId'' = Some v \<Longrightarrow> v \<notin> V"
  shows "uniqueUserIds (snd (firstRequest env action akm ecm r st)) env \<and>
         (\<forall>a \<in> set (userIdRows (snd (firstRequest env action akm ecm r st)) env).
            a_value a \<in> V \<union> set (writtenUserIds (filter (\<lambda>r. \<not> suspends action ecm r) [r])))"
proof (cases "truthy r ''email''")
  case None
  with uniq vals show ?thesis by (simp add: firstRequest_no_email)
next
  case (Some email)
  from rd have wf: "wf_store st" and kr: "keysResolved st env akm" by (simp_all add: ready_def)
  from wf have pk: "primaryKeys st" by (simp add: wf_store_def)
  have gen: "uniqueUserIds st' env \<and>
         (\<forall>a \<in> set (userIdRows st' env). a_value a \<in> V \<union> set_option (map_of r ''userId''))"
    if "\<not> suspends action ecm r" "contactAttributeKey st' = contactAttributeKey st"
      "set (contactAttribute st') \<subseteq> set (contactAttribute st) \<union> attributeRow cid ` set (resolved akm r)"
    for st' cid
  proof -
    have fr: "\<And>v. map_of r ''userId'' = Some v \<Longrightarrow> v \<notin> V" using fresh that(1) Some by simp
    from pk kr cov that(2,3) uniq vals fr show ?thesis by (rule unique_step)
  qed
  have w: "set (writtenUserIds (filter (\<lambda>r. \<not> suspends action ecm r) [r])) =
      set_option (map_of r ''userId'')" if "\<not> suspends action ecm r"
    using that Some by (auto simp: writtenUserIds_Cons writtenUserIds_def List.map_filter_simps
        split: option.splits)
  show ?thesis
  proof (cases "ecm email")
    case None
    then have ns: "\<not> suspends action ecm r" by (simp add: suspends_def target_def Some)
    have "uniqueUserIds (created st env (resolved akm r)) env \<and>
         (\<forall>a \<in> set (userIdRows (created st env (resolved akm r)) env).
            a_value a \<in> V \<union> set_option (map_of r ''userId''))"
      by (rule gen[OF ns, of _ "nextId st"]) (auto simp: created_def)
    then show ?thesis
      unfolding w[OF ns] by (simp add: firstRequest_create[OF rd cov Some None])
  next
    case ex: (Some ex)
    show ?thesis
    proof (cases action)
      case Skip
      with uniq vals show ?thesis
        by (auto simp: firstRequest_skip[where ecm = ecm, OF Some ex])
    next
      case Update
      then have ns: "\<not> suspends action ecm r" by (simp add: suspends_def)
      have d: "distinct (map fst (resolved akm r))" using pk kr cov by (rule resolved_distinct)
      have "uniqueUserIds (upserted st (fst ex) (resolved akm r)) env \<and>
         (\<forall>a \<in> set (userIdRows (upserted st (fst ex) (resolved akm r)) env).
            a_value a \<in> V \<union> set_option (map_of r ''userId''))"
        by (rule gen[OF ns, of _ "fst ex"]) (auto simp: upserted_def upsertAttributes_set[OF d])
      then show ?thesis
        unfolding w[OF ns] by (simp add: Update firstRequest_update[OF rd cov Some ex])
    next
      case Overwrite
      have "uniqueUserIds (contactAttribute_deleteMany st (fst ex)) env \<and>
         (\<forall>a \<in> set (userIdRows (contactAttribute_deleteMany st (fst ex)) env). a_value a \<in> V)"
        using pk kr _ _ uniq vals
        by (rule unique_rows_removed) (auto simp: contactAttribute_deleteMany_def)
      then show ?thesis
        by (simp add: Overwrite firstRequest_overwrite[where ecm = ecm, OF Some ex])
    qed
  qed
qed

lemma firstRequests_unique:
  assumes "ready env akm ecm st" "\<forall>r \<in> set rs. covered akm r"
    "uniqueUserIds st env" "\<forall>a \<in> set (userIdRows st env). a_value a \<in> V"
    "distinct (writtenUserIds rs)" "set (writtenUserIds rs) \<inter> V = {}"
  shows "uniqueUserIds (snd (firstRequests env action akm ecm rs st)) env \<and>
         (\<forall>a \<in> set (userIdRows (snd (firstRequests env action akm ecm rs st)) env).
            a_value a \<in> V \<union> set (writtenUserIds (filter (\<lambda>r. \<not> suspends action ecm r) rs)))"
  using assms
proof (induction rs arbitrary: st V)
  case Nil
  then show ?case by (simp add: writtenUserIds_def List.map_filter_simps)
next
  case (Cons r rs)
  from Cons.prems have r: "covered akm r" and rs: "\<forall>r \<in> set rs. covered akm r" by auto
  let ?st = "snd (firstRequest env action akm ecm r st)"
  let ?N = "\<lambda>r. \<not> suspends action ecm r"
  let ?V = "V \<union> set (writtenUserIds (filter ?N [r]))"
  from firstRequest_ready[OF Cons.prems(1) r, of action] have rd: "ready env akm ecm ?st" by blast
  have fresh: "v \<notin> V" if "truthy r ''email'' \<noteq> None" "map_of r ''userId'' = Some v" for v
    using that Cons.prems(6) by (auto simp: writtenUserIds_Cons)
  from firstRequest_unique[OF Cons.prems(1) r Cons.prems(3,4) fresh, of action]
  have u: "uniqueUserIds ?st env" and v: "\<forall>a \<in> set (userIdRows ?st env). a_value a \<in> ?V"
    by blast+
  have d: "distinct (writtenUserIds rs)"
    using Cons.prems(5) by (auto simp: writtenUserIds_Cons split: option.splits)
  have sub: "set (writtenUserIds (filter ?N [r])) \<subseteq> set (writtenUserIds [r])"
    by (rule writtenUserIds_filter_subset)
  have i: "set (writtenUserIds rs) \<inter> ?V = {}"
    using Cons.prems(5,6) sub
    by (auto simp: writtenUserIds_Cons writtenUserIds_def[of "[]"] List.map_filter_simps
        split: option.splits)
  have app: "set (writtenUserIds (filter ?N (r # rs))) =
      set (writtenUserIds (filter ?N [r])) \<union> set (writtenUserIds (filter ?N rs))"
    by (auto simp: writtenUserIds_Cons writtenUserIds_def[of "[]"] List.map_filter_simps
        split: option.splits)
  from Cons.IH[OF rd rs u v d i] show ?case
    unfolding app by (simp add: split_beta Un_assoc)
qed

lemma secondRequest_unique:
  assumes rd: "ready env akm ecm st" and p: "pendingFor action env akm ecm n p r"
    and uniq: "uniqueUserIds st env"
    and vals: "\<forall>a \<in> set (userIdRows st env). a_value a \<in> V"
    and fresh: "\<And>v. suspends action ecm r \<Longrightarrow> map_of r ''userId'' = Some v \<Longrightarrow> v \<notin> V"
  shows "uniqueUserIds (snd (secondRequest p st)) env \<and>
         (\<forall>a \<in> set (userIdRows (snd (secondRequest p st)) env).
            a_value a \<in> V \<union> set (writtenUserIds (filter (suspends action ecm) [r])))"
proof (cases p)
  case (Returned res)
  with uniq vals show ?thesis by simp
next
  case (AfterDeleteMany cid d)
  with p have ow: "action = Overwrite" and cov: "covered akm r" and d: "d = payload akm r"
    and t: "target action ecm r = Some cid" by (auto simp: pendingFor_def)
  from ow t have sus: "suspends action ecm r" by (simp add: suspends_def)
  from t obtain email ex where e: "truthy r ''email'' = Some email" "ecm email = Some ex" "cid = fst ex"
    by (auto simp: target_def split: option.splits if_splits)
  let ?c = "\<lparr>c_id = cid, c_environmentId = env\<rparr>"
  from known_contact[OF rd e(2)] e(3) have c: "?c \<in> set (contact st)" by simp
  from rd have wf: "wf_store st" and kr: "keysResolved st env akm" by (simp_all add: ready_def)
  from wf have pk: "primaryKeys st" by (simp add: wf_store_def)
  have fr: "\<And>v. map_of r ''userId'' = Some v \<Longrightarrow> v \<notin> V" using fresh sus by simp
  have gen: "uniqueUserIds st' env \<and>
         (\<forall>a \<in> set (userIdRows st' env). a_value a \<in> V \<union> set_option (map_of r ''userId''))"
    if "contactAttributeKey st' = contactAttributeKey st"
      "set (contactAttribute st') \<subseteq> set (contactAttribute st) \<union> attributeRow cid ` set (resolved akm r)"
    for st'
    using pk kr cov that uniq vals fr by (rule unique_step)
  have w: "set (writtenUserIds (filter (suspends action ecm) [r])) = set_option (map_of r ''userId'')"
    using sus e(1) by (auto simp: writtenUserIds_Cons writtenUserIds_def List.map_filter_simps
        split: option.splits)
  have "snd (secondRequest p st) = appended st cid (resolved akm r) \<or> snd (secondRequest p st) = st"
    using secondRequest_create[OF rd cov c] by (auto simp: AfterDeleteMany d)
  then show ?thesis
  proof
    assume a: "snd (secondRequest p st) = appended st cid (resolved akm r)"
    show ?thesis unfolding a w by (rule gen) (auto simp: appended_def)
  next
    assume a: "snd (secondRequest p st) = st"
    show ?thesis unfolding a w by (rule gen) auto
  qed
qed

lemma secondRequests_unique:
  assumes "list_all2 (pendingFor action env akm ecm n) ps rs" "ready env akm ecm st"
    "uniqueUserIds st env" "\<forall>a \<in> set (userIdRows st env). a_value a \<in> V"
    "distinct (writtenUserIds (filter (suspends action ecm) rs))"
    "set (writtenUserIds (filter (suspends action ecm) rs)) \<inter> V = {}"
  shows "uniqueUserIds (snd (secondRequests ps st)) env"
  using assms
proof (induction ps rs arbitrary: st V rule: list_all2_induct)
  case Nil
  then show ?case by simp
next
  case (Cons p ps r rs)
  let ?st = "snd (secondRequest p st)"
  let ?S = "suspends action ecm"
  let ?V = "V \<union> set (writtenUserIds (filter ?S [r]))"
  from secondRequest_ready[OF Cons.prems(1) pendingFor_ok[OF Cons.prems(1) Cons.hyps(1)]]
  have rd: "ready env akm ecm ?st" by blast
  have fresh: "v \<notin> V" if "suspends action ecm r" "map_of r ''userId'' = Some v" for v
  proof -
    from that(1) have "truthy r ''email'' \<noteq> None"
      by (auto simp: suspends_def target_def split: option.splits)
    with that Cons.prems(5) show ?thesis by (auto simp: writtenUserIds_Cons)
  qed
  from secondRequest_unique[OF Cons.prems(1) Cons.hyps(1) Cons.prems(2,3) fresh]
  have u: "uniqueUserIds ?st env" and v: "\<forall>a \<in> set (userIdRows ?st env). a_value a \<in> ?V"
    by blast+
  have d: "distinct (writtenUserIds (filter ?S rs))"
    using Cons.prems(4) by (auto simp: writtenUserIds_Cons split: option.splits if_splits)
  have i: "set (writtenUserIds (filter ?S rs)) \<inter> ?V = {}"
    using Cons.prems(4,5)
    by (auto simp: writtenUserIds_Cons writtenUserIds_def[of "[]"] List.map_filter_simps
        split: option.splits if_splits)
  from Cons.IH[OF rd u v d i] show ?case
    by (simp add: split_beta)
qed

lemma unique_contactPromises:
  assumes "ready env akm ecm st" "\<forall>r \<in> set rs. covered akm r"
    "uniqueUserIds st env" "\<forall>a \<in> set (userIdRows st env). a_value a \<in> V"
    "distinct (writtenUserIds rs)" "set (writtenUserIds rs) \<inter> V = {}"
  shows "uniqueUserIds (snd (contactPromises env action akm ecm rs st)) env"
proof -
  let ?ps = "fst (firstRequests env action akm ecm rs st)"
  let ?st = "snd (firstRequests env action akm ecm rs st)"
  let ?S = "suspends action ecm"
  let ?V = "V \<union> set (writtenUserIds (filter (\<lambda>r. \<not> ?S r) rs))"
  from firstRequests_ready[OF assms(1,2), of action] have rd: "ready env akm ecm ?st" by blast
  have rel: "list_all2 (pendingFor action env akm ecm (nextId st)) ?ps rs"
    using assms(1,2) by (rule firstRequests_results) simp
  from firstRequests_unique[OF assms, of action]
  have u: "uniqueUserIds ?st env" and v: "\<forall>a \<in> set (userIdRows ?st env). a_value a \<in> ?V"
    by blast+
  have d: "distinct (writtenUserIds (filter ?S rs))"
    using assms(5) by (rule writtenUserIds_filter_distinct)
  have i: "set (writtenUserIds (filter ?S rs)) \<inter> ?V = {}"
    using writtenUserIds_filter_disjoint[OF assms(5), of ?S] assms(6)
      writtenUserIds_filter_subset[of ?S rs] by blast
  from secondRequests_unique[OF rel rd u v d i] show ?thesis
    by (simp add: contactPromises_def split_beta)
qed

subsection \<open>The record that alone writes to its contact\<close>





subsection \<open>The failures of a run\<close>

lemma firstRequest_succeeds:
  assumes rd: "ready env akm ecm s" and cov: "covered akm r"
  shows "fst (firstRequest env action akm ecm r s) \<noteq> Returned (Inl e)"
proof (cases "truthy r ''email''")
  case None
  then show ?thesis by (simp add: firstRequest_no_email)
next
  case (Some email)
  show ?thesis
  proof (cases "ecm email")
    case None
    show ?thesis by (simp add: firstRequest_create[OF rd cov Some None])
  next
    case ex: (Some ex)
    show ?thesis
      by (cases action)
         (simp_all add: firstRequest_skip[where ecm = ecm, OF Some ex]
            firstRequest_update[OF rd cov Some ex]
            firstRequest_overwrite[where ecm = ecm, OF Some ex])
  qed
qed

lemma firstRequests_succeed:
  assumes "ready env akm ecm s" "\<forall>r \<in> set rs. covered akm r"
  shows "Returned (Inl e) \<notin> set (fst (firstRequests env action akm ecm rs s))"
  using assms
proof (induction rs arbitrary: s)
  case Nil
  then show ?case by simp
next
  case (Cons r rs)
  from Cons.prems have r: "covered akm r" and rs: "\<forall>r \<in> set rs. covered akm r" by auto
  from firstRequest_ready[OF Cons.prems(1) r, of action]
  have rd: "ready env akm ecm (snd (firstRequest env action akm ecm r s))" by blast
  from Cons.IH[OF rd rs] firstRequest_succeeds[OF Cons.prems(1) r, of action e]
  show ?case by (auto simp: split_beta)
qed

lemma secondRequest_failure:
  assumes rd: "ready env akm ecm s" and ok: "pendingOk env akm s p"
    and p: "p \<noteq> Returned (Inl e)" and f: "fst (secondRequest p s) = Inl e"
  shows "e = PrismaClientKnownRequestError ''Unique constraint failed''"
proof (cases p)
  case (Returned res)
  with p f show ?thesis by simp
next
  case (AfterDeleteMany cid d)
  with ok obtain r where r: "covered akm r" "d = payload akm r"
    and c: "\<lparr>c_id = cid, c_environmentId = env\<rparr> \<in> set (contact s)"
    by (auto simp: pendingOk_def)
  from secondRequest_create[OF rd r(1) c] f show ?thesis
    by (auto simp: AfterDeleteMany r(2) split: if_splits)
qed

lemma secondRequests_failure:
  assumes "ready env akm ecm s" "list_all (pendingOk env akm s) ps"
    "Returned (Inl e) \<notin> set ps" "Inl e \<in> set (fst (secondRequests ps s))"
  shows "e = PrismaClientKnownRequestError ''Unique constraint failed''"
  using assms
proof (induction ps arbitrary: s)
  case Nil
  then show ?case by simp
next
  case (Cons p ps)
  from Cons.prems(2) have p: "pendingOk env akm s p" and ps: "list_all (pendingOk env akm s) ps"
    by simp_all
  let ?s = "snd (secondRequest p s)"
  from secondRequest_ready[OF Cons.prems(1) p]
  have rd: "ready env akm ecm ?s" and cs: "contact ?s = contact s" by blast+
  have ok: "list_all (pendingOk env akm ?s) ps"
    using ps cs by (auto simp: list_all_iff intro: pendingOk_mono)
  from Cons.prems(3) have np: "p \<noteq> Returned (Inl e)" and nps: "Returned (Inl e) \<notin> set ps"
    by auto
  from Cons.prems(4) consider "fst (secondRequest p s) = Inl e"
    | "Inl e \<in> set (fst (secondRequests ps ?s))"
    by (auto simp: split_beta)
  then show ?case
  proof cases
    case 1
    with Cons.prems(1) p np show ?thesis by (rule secondRequest_failure)
  next
    case 2
    with rd ok nps show ?thesis by (rule Cons.IH)
  qed
qed

lemma contactPromises_failure:
  assumes "ready env akm ecm s" "\<forall>r \<in> set rs. covered akm r"
    and "Inl e \<in> set (fst (contactPromises env action akm ecm rs s))"
  shows "e = PrismaClientKnownRequestError ''Unique constraint failed''"
proof -
  from firstRequests_ready[OF assms(1,2), of action]
  have "ready env akm ecm (snd (firstRequests env action akm ecm rs s))"
    and "list_all (pendingOk env akm (snd (firstRequests env action akm ecm rs s)))
           (fst (firstRequests env action akm ecm rs s))" by blast+
  then show ?thesis
    using firstRequests_succeed[OF assms(1,2)]
  proof (rule secondRequests_failure)
    show "Inl e \<in> set (fst (secondRequests (fst (firstRequests env action akm ecm rs s))
        (snd (firstRequests env action akm ecm rs s))))"
      using assms(3) by (simp add: contactPromises_def split_beta)
  qed
qed

section \<open>The properties of the importer\<close>

text \<open>Claim C7. A record that lacks an email value (the column is absent or holds the empty
  string) is passed over under every policy: its callback yields \<open>null\<close> and leaves the store
  as it was, so the store at the end of the callbacks and the sequence handed back are the
  ones of the batch without that record.\<close>

theorem email_less_record_dropped:
  assumes "truthy r ''email'' = None"
  shows "firstRequest env action akm ecm r s = (Returned (Inr None), s) \<and>
         snd (contactPromises env action akm ecm (pre @ r # post) s) =
           snd (contactPromises env action akm ecm (pre @ post) s) \<and>
         aggregate (fst (contactPromises env action akm ecm (pre @ r # post) s)) =
           aggregate (fst (contactPromises env action akm ecm (pre @ post) s))"
  using contactPromises_null_at[of env action akm ecm r pre post s] assms
  by (simp add: firstRequest_no_email)

theorem email_less_record_dropped_witness:
  "truthy [(''userId'', ''u2''), (''plan'', ''pro'')] ''email'' = None \<and>
   firstRequest ''env1'' Update (existingAttributeKeys exampleStore ''env1'') Map.empty
       [(''userId'', ''u2''), (''plan'', ''pro'')] exampleStore = (Returned (Inr None), exampleStore) \<and>
   snd (contactPromises ''env1'' Update (existingAttributeKeys exampleStore ''env1'') Map.empty
         ([[(''email'', ''b@x.com''), (''plan'', ''free'')]] @
            [(''userId'', ''u2''), (''plan'', ''pro'')] # []) exampleStore) =
     snd (contactPromises ''env1'' Update (existingAttributeKeys exampleStore ''env1'') Map.empty
         ([[(''email'', ''b@x.com''), (''plan'', ''free'')]] @ []) exampleStore) \<and>
   aggregate (fst (contactPromises ''env1'' Update (existingAttributeKeys exampleStore ''env1'') Map.empty
         ([[(''email'', ''b@x.com''), (''plan'', ''free'')]] @
            [(''userId'', ''u2''), (''plan'', ''pro'')] # []) exampleStore)) =
     aggregate (fst (contactPromises ''env1'' Update (existingAttributeKeys exampleStore ''env1'') Map.empty
         ([[(''email'', ''b@x.com''), (''plan'', ''free'')]] @ []) exampleStore))"
proof -
  have h: "truthy [(''userId'', ''u2''), (''plan'', ''pro'')] ''email'' = None"
    by (simp add: truthy_def)
  from email_less_record_dropped[OF h] h show ?thesis by blast
qed

text \<open>Claim C9. Two attribute maps that both pass the input validation lead to the same
  writes and the same returned sequence: past the validation the attribute map is not read.\<close>

theorem attributeMap_without_influence:
  "validateInputs Z csvData env action m1 \<Longrightarrow> validateInputs Z csvData env action m2 \<Longrightarrow>
   createContactsFromCSV Z csvData env action m1 s = createContactsFromCSV Z csvData env action m2 s"
  by (simp add: createContactsFromCSV_def)

theorem attributeMap_without_influence_witness:
  "validateInputs anySchemas [[(''email'', ''b@x.com''), (''plan'', ''pro'')]] ''env1'' Update
     [(''E-Mail'', ''email''), (''Plan'', ''plan'')] \<and>
   validateInputs anySchemas [[(''email'', ''b@x.com''), (''plan'', ''pro'')]] ''env1'' Update [] \<and>
   createContactsFromCSV anySchemas [[(''email'', ''b@x.com''), (''plan'', ''pro'')]] ''env1'' Update
     [(''E-Mail'', ''email''), (''Plan'', ''plan'')] exampleStore =
   createContactsFromCSV anySchemas [[(''email'', ''b@x.com''), (''plan'', ''pro'')]] ''env1'' Update
     [] exampleStore"
proof -
  have h1: "validateInputs anySchemas [[(''email'', ''b@x.com''), (''plan'', ''pro'')]] ''env1'' Update
     [(''E-Mail'', ''email''), (''Plan'', ''plan'')]"
    by (simp add: validateInputs_def anySchemas_def)
  have h2: "validateInputs anySchemas [[(''email'', ''b@x.com''), (''plan'', ''pro'')]] ''env1'' Update []"
    by (simp add: validateInputs_def anySchemas_def)
  from attributeMap_without_influence[OF h1 h2] h1 h2 show ?thesis by blast
qed

text \<open>Claim C10. A column that occurs only in records without an email value still gets its
  attribute key: when the environment has no key of that name and the run is not turned down
  with a validation error, the store holds afterwards a key of the environment with that key
  and that name. The missing keys are computed from all records of the batch, before the
  records without email are passed over.\<close>

theorem key_created_for_email_less_column:
  assumes "\<exists>r \<in> set csvData. key \<in> fst ` set r"
    and "\<forall>r \<in> set csvData. key \<in> fst ` set r \<longrightarrow> truthy r ''email'' = None"
    and "\<forall>k \<in> set (contactAttributeKey s). \<not> (k_key k = key \<and> k_environmentId k = env)"
    and "\<forall>msg. fst (createContactsFromCSV Z csvData env action attributeMap s) \<noteq>
           Inl (ValidationError msg)"
  shows "\<exists>k \<in> set (contactAttributeKey (snd (createContactsFromCSV Z csvData env action attributeMap s))).
           k_key k = key \<and> k_name k = key \<and> k_environmentId k = env"
proof -
  let ?s1 = "createMissingKeys s env csvData"
  from createContactsFromCSV_reaches[OF assms(4)]
  have keys: "contactAttributeKey (snd (createContactsFromCSV Z csvData env action attributeMap s)) =
      contactAttributeKey ?s1"
    by (simp add: createContactsFromCSV_keys)
  from assms(1) have "key \<in> set (csvKeys csvData)"
    by (auto intro: csvKeys_member)
  from createMissingKeys_present[OF this, of s env] obtain k where
    k: "k \<in> set (contactAttributeKey ?s1)" "k_key k = key" "k_environmentId k = env" by blast
  from createMissingKeys_keys[of s env csvData] obtain new where new:
    "contactAttributeKey ?s1 = contactAttributeKey s @ new"
    "\<forall>k \<in> set new. k_name k = k_key k" by blast
  from k assms(3) have "k \<notin> set (contactAttributeKey s)" by blast
  with k(1) new have "k_name k = key" using k(2) by auto
  with k keys show ?thesis by auto
qed

theorem key_created_for_email_less_column_witness:
  "(\<exists>r \<in> set [[(''email'', ''a@x.com''), (''plan'', ''free'')], [(''userId'', ''u2''), (''plan'', ''pro'')]].
       ''userId'' \<in> fst ` set r) \<and>
   (\<forall>msg. fst (createContactsFromCSV anySchemas
        [[(''email'', ''a@x.com''), (''plan'', ''free'')], [(''userId'', ''u2''), (''plan'', ''pro'')]]
        ''env1'' Update [] emptyStore) \<noteq> Inl (ValidationError msg)) \<and>
   (\<exists>k \<in> set (contactAttributeKey (snd (createContactsFromCSV anySchemas
        [[(''email'', ''a@x.com''), (''plan'', ''free'')], [(''userId'', ''u2''), (''plan'', ''pro'')]]
        ''env1'' Update [] emptyStore))).
      k_key k = ''userId'' \<and> k_name k = ''userId'' \<and> k_environmentId k = ''env1'')"
proof -
  let ?csv = "[[(''email'', ''a@x.com''), (''plan'', ''free'')], [(''userId'', ''u2''), (''plan'', ''pro'')]]"
  have h1: "\<exists>r \<in> set ?csv. ''userId'' \<in> fst ` set r" by simp
  have h2: "\<forall>r \<in> set ?csv. ''userId'' \<in> fst ` set r \<longrightarrow> truthy r ''email'' = None"
    by (simp add: truthy_def)
  have h3: "\<forall>k \<in> set (contactAttributeKey emptyStore).
      \<not> (k_key k = ''userId'' \<and> k_environmentId k = ''env1'')"
    by (simp add: emptyStore_def)
  have "fst (createContactsFromCSV anySchemas ?csv ''env1'' Update [] emptyStore) =
      Inr [\<lparr>t_id = 3, t_environmentId = ''env1'',
            t_attributes = [(''email'', ''a@x.com''), (''plan'', ''free'')]\<rparr>]"
    by code_simp
  then have h4: "\<forall>msg. fst (createContactsFromCSV anySchemas ?csv ''env1'' Update [] emptyStore) \<noteq>
      Inl (ValidationError msg)" by simp
  from key_created_for_email_less_column[OF h1 h2 h3 h4] h1 h2 h3 h4 show ?thesis by blast
qed

text \<open>Claim C5. Two runs with the same records and attribute map, the first from a store in
  which the environment has no attribute key: the second run leaves the attribute keys exactly
  as the first has left them, and after the first run the environment has one attribute key
  for each column name that occurs in a record of the batch, no column name twice and no key
  that is not a column name.\<close>

theorem key_reconciliation_idempotent:
  assumes "\<forall>k \<in> set (contactAttributeKey s). k_environmentId k \<noteq> env"
    and "validateInputs Z csvData env action attributeMap"
  shows "contactAttributeKey
           (snd (createContactsFromCSV Z csvData env action' attributeMap
              (snd (createContactsFromCSV Z csvData env action attributeMap s)))) =
         contactAttributeKey (snd (createContactsFromCSV Z csvData env action attributeMap s)) \<and>
         distinct (map k_key (filter (\<lambda>k. k_environmentId k = env)
           (contactAttributeKey (snd (createContactsFromCSV Z csvData env action attributeMap s))))) \<and>
         set (map k_key (filter (\<lambda>k. k_environmentId k = env)
           (contactAttributeKey (snd (createContactsFromCSV Z csvData env action attributeMap s))))) =
         fst ` set (concat csvData)"
proof -
  let ?s1 = "snd (createContactsFromCSV Z csvData env action attributeMap s)"
  have none: "existingUserIds s env csvData = []"
    using assms(1)
    by (auto simp: existingUserIds_def contactAttribute_findMany_def filter_empty_conv dest!: hasKeyIn_D)
  have keys1: "contactAttributeKey ?s1 = contactAttributeKey (createMissingKeys s env csvData)"
    using assms(2) none by (simp add: createContactsFromCSV_keys)
  have idem: "createMissingKeys ?s1 env csvData = ?s1"
    using keys1 by (rule createMissingKeys_idem)
  have first: "contactAttributeKey
           (snd (createContactsFromCSV Z csvData env action' attributeMap ?s1)) =
         contactAttributeKey ?s1"
    by (simp add: createContactsFromCSV_keys idem)
  have all: "missingKeys s env csvData = csvKeys csvData"
    using assms(1) by (auto simp: missingKeys_def existingAttributeKeys_None)
  have "map k_key (filter (\<lambda>k. k_environmentId k = env)
           (contactAttributeKey (createMissingKeys s env csvData))) = csvKeys csvData"
  proof (cases "csvKeys csvData = []")
    case True
    with all assms(1) show ?thesis
      by (simp add: createMissingKeys_def filter_empty_conv)
  next
    case False
    have "map k_key (filter (\<lambda>k. k_environmentId k = env)
       (contactAttributeKey (contactAttributeKey_createMany s (map (\<lambda>key. (key, key, env)) (csvKeys csvData))))) =
     map k_key (filter (\<lambda>k. k_environmentId k = env) (contactAttributeKey s)) @ csvKeys csvData"
      using assms(1) by (intro createMany_all_new) (auto simp: csvKeys_def)
    moreover have "filter (\<lambda>k. k_environmentId k = env) (contactAttributeKey s) = []"
      using assms(1) by (simp add: filter_empty_conv)
    ultimately show ?thesis
      using False all by (simp add: createMissingKeys_def)
  qed
  then have keys: "map k_key (filter (\<lambda>k. k_environmentId k = env) (contactAttributeKey ?s1)) =
      csvKeys csvData"
    by (simp only: keys1)
  have "distinct (csvKeys csvData)" by (simp add: csvKeys_def)
  moreover have "set (csvKeys csvData) = fst ` set (concat csvData)"
    by (auto simp: csvKeys_def)
  ultimately show ?thesis
    unfolding keys using first by blast
qed

theorem key_reconciliation_idempotent_witness:
  "validateInputs anySchemas
     [[(''email'', ''a@x.com''), (''plan'', ''free'')], [(''userId'', ''u2''), (''plan'', ''pro'')]]
     ''env1'' Update [] \<and>
   contactAttributeKey
     (snd (createContactsFromCSV anySchemas
        [[(''email'', ''a@x.com''), (''plan'', ''free'')], [(''userId'', ''u2''), (''plan'', ''pro'')]]
        ''env1'' Overwrite []
        (snd (createContactsFromCSV anySchemas
           [[(''email'', ''a@x.com''), (''plan'', ''free'')], [(''userId'', ''u2''), (''plan'', ''pro'')]]
           ''env1'' Update [] emptyStore)))) =
   contactAttributeKey
     (snd (createContactsFromCSV anySchemas
        [[(''email'', ''a@x.com''), (''plan'', ''free'')], [(''userId'', ''u2''), (''plan'', ''pro'')]]
        ''env1'' Update [] emptyStore)) \<and>
   distinct (map k_key (filter (\<lambda>k. k_environmentId k = ''env1'')
     (contactAttributeKey
        (snd (createContactsFromCSV anySchemas
           [[(''email'', ''a@x.com''), (''plan'', ''free'')], [(''userId'', ''u2''), (''plan'', ''pro'')]]
           ''env1'' Update [] emptyStore))))) \<and>
   set (map k_key (filter (\<lambda>k. k_environmentId k = ''env1'')
     (contactAttributeKey
        (snd (createContactsFromCSV anySchemas
           [[(''email'', ''a@x.com''), (''plan'', ''free'')], [(''userId'', ''u2''), (''plan'', ''pro'')]]
           ''env1'' Update [] emptyStore))))) =
   {''email'', ''plan'', ''userId''}"
proof -
  let ?csv = "[[(''email'', ''a@x.com''), (''plan'', ''free'')], [(''userId'', ''u2''), (''plan'', ''pro'')]]"
  have h1: "\<forall>k \<in> set (contactAttributeKey emptyStore). k_environmentId k \<noteq> ''env1''"
    by (simp add: emptyStore_def)
  have h2: "validateInputs anySchemas ?csv ''env1'' Update []"
    by (simp add: validateInputs_def anySchemas_def)
  have cols: "fst ` set (concat ?csv) = {''email'', ''plan'', ''userId''}"
    by auto
  from key_reconciliation_idempotent[OF h1 h2, of Overwrite] h1 h2 show ?thesis
    unfolding cols by blast
qed

text \<open>Claim C2, amended. When a record of the batch has a non-empty \<open>userId\<close> value that some
  attribute of key \<open>userId\<close> in the environment already carries, the importer fails with a
  validation error and the store is as before: no contact, no attribute and no attribute key
  has been written. (An empty \<open>userId\<close> value is not looked for: the counterexample is a batch
  whose record has the empty \<open>userId\<close> that a contact of the store already carries; the run
  succeeds and creates a second contact.)\<close>

theorem userId_collision_rejected:
  assumes "r \<in> set csvData" and "truthy r ''userId'' = Some u"
    and "a \<in> set (contactAttribute s)" and "hasKeyIn s ''userId'' env a" and "a_value a = u"
  shows "\<exists>msg. createContactsFromCSV Z csvData env action attributeMap s =
           (Inl (ValidationError msg), s)"
proof -
  have "u \<in> set (existingUserIds s env csvData)"
    using assms by (intro existingUserIds_member csvUserIds_member)
  then obtain v vs where "existingUserIds s env csvData = v # vs"
    by (cases "existingUserIds s env csvData") auto
  then show ?thesis
    by (simp add: createContactsFromCSV_def)
qed

theorem userId_collision_rejected_witness:
  "[(''email'', ''b@x.com''), (''userId'', ''u1'')] \<in> set [[(''email'', ''b@x.com''), (''userId'', ''u1'')]] \<and>
   truthy [(''email'', ''b@x.com''), (''userId'', ''u1'')] ''userId'' = Some ''u1'' \<and>
   \<lparr>a_contactId = 3, a_attributeKeyId = 2, a_value = ''u1''\<rparr> \<in> set (contactAttribute exampleStore) \<and>
   hasKeyIn exampleStore ''userId'' ''env1'' \<lparr>a_contactId = 3, a_attributeKeyId = 2, a_value = ''u1''\<rparr> \<and>
   (\<exists>msg. createContactsFromCSV anySchemas [[(''email'', ''b@x.com''), (''userId'', ''u1'')]] ''env1''
       Update [] exampleStore = (Inl (ValidationError msg), exampleStore))"
proof -
  let ?r = "[(''email'', ''b@x.com''), (''userId'', ''u1'')]"
  let ?a = "\<lparr>a_contactId = 3, a_attributeKeyId = 2, a_value = ''u1''\<rparr>"
  have h1: "?r \<in> set [?r]" by simp
  have h2: "truthy ?r ''userId'' = Some ''u1''" by (simp add: truthy_def)
  have h3: "?a \<in> set (contactAttribute exampleStore)" by (simp add: exampleStore_def)
  have h4: "hasKeyIn exampleStore ''userId'' ''env1'' ?a"
    by (simp add: hasKeyIn_def attributeKeyOf_def exampleStore_def)
  have h5: "a_value ?a = ''u1''" by simp
  from userId_collision_rejected[OF h1 h2 h3 h4 h5] h1 h2 h3 h4 show ?thesis by blast
qed

theorem empty_userId_collision_accepted:
  "map_of [(''email'', ''b@x.com''), (''userId'', '''')] ''userId'' = Some '''' \<and>
   \<lparr>a_contactId = 2, a_attributeKeyId = 1, a_value = ''''\<rparr> \<in> set (contactAttribute emptyUserIdStore) \<and>
   hasKeyIn emptyUserIdStore ''userId'' ''env1'' \<lparr>a_contactId = 2, a_attributeKeyId = 1, a_value = ''''\<rparr> \<and>
   createContactsFromCSV anySchemas [[(''email'', ''b@x.com''), (''userId'', '''')]] ''env1'' Update []
       emptyUserIdStore =
     (Inr [\<lparr>t_id = 3, t_environmentId = ''env1'',
            t_attributes = [(''email'', ''b@x.com''), (''userId'', '''')]\<rparr>],
      emptyUserIdStore
        \<lparr>contact := contact emptyUserIdStore @ [\<lparr>c_id = 3, c_environmentId = ''env1''\<rparr>],
         contactAttribute := contactAttribute emptyUserIdStore @
           [\<lparr>a_contactId = 3, a_attributeKeyId = 0, a_value = ''b@x.com''\<rparr>,
            \<lparr>a_contactId = 3, a_attributeKeyId = 1, a_value = ''''\<rparr>],
         nextId := 4\<rparr>)"
  by code_simp



text \<open>Claim C8. When a run on an intact store succeeds, the sequence it returns corresponds,
  element by element and in the order of the batch, to the records for which the create, the
  update or the overwrite branch ran: each element is the contact of its record (for an email
  that was found the existing contact, otherwise a contact that the initial store did not
  have), and it carries the entries of the record. Records without email and records that the
  policy \<open>skip\<close> passes over have no element.\<close>

theorem returned_contacts_are_the_written_ones:
  assumes "wf_store s" and "list_all wf_record csvData"
    and "fst (createContactsFromCSV Z csvData env action attributeMap s) = Inr cs"
  shows "list_all2 (returnedFor s env (emailToContactMap s env csvData)) cs
           (filter (branchRuns action (emailToContactMap s env csvData)) csvData)"
proof -
  let ?akm = "attributeKeyMap s env csvData" and ?ecm = "emailToContactMap s env csvData"
  let ?s1 = "createMissingKeys s env csvData"
  from assms(3) have "\<forall>msg. fst (createContactsFromCSV Z csvData env action attributeMap s) \<noteq>
      Inl (ValidationError msg)" by simp
  from createContactsFromCSV_reaches[OF this]
  have res: "fst (createContactsFromCSV Z csvData env action attributeMap s) =
      aggregate (fst (contactPromises env action ?akm ?ecm csvData ?s1))"
    by (simp add: run_result)
  from assms(2) have cov: "\<forall>r \<in> set csvData. covered ?akm r"
    by (rule run_covered_all)
  have ok: "list_all2 (resultOk action env ?ecm (nextId s))
           (fst (contactPromises env action ?akm ?ecm csvData ?s1)) csvData"
    using run_ready[OF assms(1)] cov createMissingKeys_nextId
    by (rule contactPromises_results)
  have "list_all2 (\<lambda>res r. if branchRuns action ?ecm r
        then (\<exists>c. res = Inr (Some c) \<and> writtenContact env ?ecm (nextId s) c r) \<or> (\<exists>e. res = Inl e)
        else res = Inr None)
           (fst (contactPromises env action ?akm ?ecm csvData ?s1)) csvData"
    by (rule list_all2_mono[OF ok]) (simp add: resultOk_def)
  moreover from res assms(3)
  have "aggregate (fst (contactPromises env action ?akm ?ecm csvData ?s1)) = Inr cs" by simp
  ultimately have w: "list_all2 (writtenContact env ?ecm (nextId s)) cs
      (filter (branchRuns action ?ecm) csvData)"
    by (rule aggregate_written)
  have fresh: "i \<notin> c_id ` set (contact s)" if "nextId s \<le> i" for i
    using assms(1) that by (auto simp: wf_store_def idsBelowCounter_def)
  show ?thesis
    using w
    by (rule list_all2_mono) (auto simp: returnedFor_def writtenContact_def fresh split: option.splits)
qed

theorem returned_contacts_are_the_written_ones_witness:
  "wf_store exampleStore \<and>
   list_all wf_record
     [[(''email'', ''a@x.com''), (''city'', ''NYC'')], [(''userId'', ''u2''), (''plan'', ''pro'')],
      [(''email'', ''b@x.com'')]] \<and>
   fst (createContactsFromCSV anySchemas
     [[(''email'', ''a@x.com''), (''city'', ''NYC'')], [(''userId'', ''u2''), (''plan'', ''pro'')],
      [(''email'', ''b@x.com'')]] ''env1'' Update [] exampleStore) =
     Inr [\<lparr>t_id = 3, t_environmentId = ''env1'',
            t_attributes = [(''email'', ''a@x.com''), (''plan'', ''free''), (''userId'', ''u1''),
                            (''city'', ''NYC'')]\<rparr>,
          \<lparr>t_id = 5, t_environmentId = ''env1'', t_attributes = [(''email'', ''b@x.com'')]\<rparr>] \<and>
   list_all2
     (returnedFor exampleStore ''env1''
        (emailToContactMap exampleStore ''env1''
           [[(''email'', ''a@x.com''), (''city'', ''NYC'')], [(''userId'', ''u2''), (''plan'', ''pro'')],
            [(''email'', ''b@x.com'')]]))
     [\<lparr>t_id = 3, t_environmentId = ''env1'',
        t_attributes = [(''email'', ''a@x.com''), (''plan'', ''free''), (''userId'', ''u1''),
                        (''city'', ''NYC'')]\<rparr>,
      \<lparr>t_id = 5, t_environmentId = ''env1'', t_attributes = [(''email'', ''b@x.com'')]\<rparr>]
     (filter
        (branchRuns Update
           (emailToContactMap exampleStore ''env1''
              [[(''email'', ''a@x.com''), (''city'', ''NYC'')], [(''userId'', ''u2''), (''plan'', ''pro'')],
               [(''email'', ''b@x.com'')]]))
        [[(''email'', ''a@x.com''), (''city'', ''NYC'')], [(''userId'', ''u2''), (''plan'', ''pro'')],
         [(''email'', ''b@x.com'')]])"
proof -
  let ?csv = "[[(''email'', ''a@x.com''), (''city'', ''NYC'')], [(''userId'', ''u2''), (''plan'', ''pro'')],
      [(''email'', ''b@x.com'')]]"
  have h2: "list_all wf_record ?csv" by (simp add: wf_record_def)
  have h3: "fst (createContactsFromCSV anySchemas ?csv ''env1'' Update [] exampleStore) =
     Inr [\<lparr>t_id = 3, t_environmentId = ''env1'',
            t_attributes = [(''email'', ''a@x.com''), (''plan'', ''free''), (''userId'', ''u1''),
                            (''city'', ''NYC'')]\<rparr>,
          \<lparr>t_id = 5, t_environmentId = ''env1'', t_attributes = [(''email'', ''b@x.com'')]\<rparr>]"
    by code_simp
  from returned_contacts_are_the_written_ones[OF wf_exampleStore h2 h3] wf_exampleStore h2 h3
  show ?thesis by blast
qed

text \<open>Claim C1, amended. On an intact store in which no two contacts of the environment carry
  the same \<open>userId\<close> value, a run leaves a store with the same property, provided the records
  of the batch that have an email carry \<open>userId\<close> values that are not empty and pairwise
  different (a record may have no \<open>userId\<close> column). The importer compares the incoming
  values with the store only: the counterexample is the batch of the claim, two records with
  different emails and the same \<open>userId\<close>, read into the empty store; both contacts are
  created. An empty \<open>userId\<close> is not compared at all: a record with an empty \<open>userId\<close> is
  created next to a contact that has the empty \<open>userId\<close> already.\<close>

theorem userId_uniqueness_preserved:
  assumes "wf_store s" and "list_all wf_record csvData" and "uniqueUserIds s env"
    and "distinct (writtenUserIds csvData)" and "[] \<notin> set (writtenUserIds csvData)"
  shows "uniqueUserIds (snd (createContactsFromCSV Z csvData env action attributeMap s)) env"
proof (cases "validateInputs Z csvData env action attributeMap \<and> existingUserIds s env csvData = []")
  case False
  then have "snd (createContactsFromCSV Z csvData env action attributeMap s) = s"
    by (simp only: run_store if_False)
  with assms(3) show ?thesis by (simp only:)
next
  case True
  let ?s1 = "createMissingKeys s env csvData"
  let ?V = "a_value ` set (userIdRows s env)"
  note cov = run_covered_all[OF assms(2), of s env]
  have u: "uniqueUserIds ?s1 env"
    using assms(1,3) by (rule unique_createMissingKeys)
  have v: "\<forall>a \<in> set (userIdRows ?s1 env). a_value a \<in> ?V"
    by (simp only: userIdRows_createMissingKeys[OF assms(1)]) blast
  from True have none: "existingUserIds s env csvData = []" by (rule conjunct2)
  have i: "set (writtenUserIds csvData) \<inter> ?V = {}"
    using written_not_in_store[OF assms(5) none] by blast
  from True have eq: "snd (createContactsFromCSV Z csvData env action attributeMap s) =
      snd (contactPromises env action (attributeKeyMap s env csvData)
        (emailToContactMap s env csvData) csvData ?s1)"
    by (simp only: run_store simp_thms if_True)
  show ?thesis
    unfolding eq using run_ready[OF assms(1)] cov u v assms(4) i by (rule unique_contactPromises)
qed

theorem userId_uniqueness_preserved_witness:
  "wf_store exampleStore \<and>
   list_all wf_record
     [[(''email'', ''b@x.com''), (''userId'', ''u2'')], [(''email'', ''c@x.com''), (''userId'', ''u3'')]] \<and>
   uniqueUserIds exampleStore ''env1'' \<and>
   distinct (writtenUserIds
     [[(''email'', ''b@x.com''), (''userId'', ''u2'')], [(''email'', ''c@x.com''), (''userId'', ''u3'')]]) \<and>
   [] \<notin> set (writtenUserIds
     [[(''email'', ''b@x.com''), (''userId'', ''u2'')], [(''email'', ''c@x.com''), (''userId'', ''u3'')]]) \<and>
   uniqueUserIds
     (snd (createContactsFromCSV anySchemas
        [[(''email'', ''b@x.com''), (''userId'', ''u2'')], [(''email'', ''c@x.com''), (''userId'', ''u3'')]]
        ''env1'' Update [] exampleStore)) ''env1''"
proof -
  let ?csv = "[[(''email'', ''b@x.com''), (''userId'', ''u2'')], [(''email'', ''c@x.com''), (''userId'', ''u3'')]]"
  have h2: "list_all wf_record ?csv" by (simp add: wf_record_def)
  have h3: "uniqueUserIds exampleStore ''env1''"
    by (simp add: uniqueUserIds_def userIdRows_def hasKeyIn_def attributeKeyOf_def exampleStore_def)
  have w: "writtenUserIds ?csv = [''u2'', ''u3'']" by code_simp
  have h4: "distinct (writtenUserIds ?csv)" unfolding w by simp
  have h5: "[] \<notin> set (writtenUserIds ?csv)" unfolding w by simp
  from userId_uniqueness_preserved[OF wf_exampleStore h2 h3 h4 h5, of anySchemas Update "[]"]
    wf_exampleStore h2 h3 h4 h5
  show ?thesis by (intro conjI)
qed

theorem duplicate_userId_in_batch_accepted:
  "uniqueUserIds emptyStore ''env1'' \<and>
   fst (createContactsFromCSV anySchemas
     [[(''email'', ''a@x.com''), (''userId'', ''u1'')], [(''email'', ''b@x.com''), (''userId'', ''u1'')]]
     ''env1'' Update [] emptyStore) =
     Inr [\<lparr>t_id = 2, t_environmentId = ''env1'',
            t_attributes = [(''email'', ''a@x.com''), (''userId'', ''u1'')]\<rparr>,
          \<lparr>t_id = 3, t_environmentId = ''env1'',
            t_attributes = [(''email'', ''b@x.com''), (''userId'', ''u1'')]\<rparr>] \<and>
   \<not> uniqueUserIds
     (snd (createContactsFromCSV anySchemas
        [[(''email'', ''a@x.com''), (''userId'', ''u1'')], [(''email'', ''b@x.com''), (''userId'', ''u1'')]]
        ''env1'' Update [] emptyStore)) ''env1'' \<and>
   uniqueUserIds emptyUserIdStore ''env1'' \<and>
   fst (createContactsFromCSV anySchemas [[(''email'', ''b@x.com''), (''userId'', '''')]] ''env1'' Update []
     emptyUserIdStore) =
     Inr [\<lparr>t_id = 3, t_environmentId = ''env1'',
            t_attributes = [(''email'', ''b@x.com''), (''userId'', '''')]\<rparr>] \<and>
   \<not> uniqueUserIds
     (snd (createContactsFromCSV anySchemas [[(''email'', ''b@x.com''), (''userId'', '''')]] ''env1'' Update []
        emptyUserIdStore)) ''env1''"
proof -
  have run1: "createContactsFromCSV anySchemas
     [[(''email'', ''a@x.com''), (''userId'', ''u1'')], [(''email'', ''b@x.com''), (''userId'', ''u1'')]]
     ''env1'' Update [] emptyStore =
     (Inr [\<lparr>t_id = 2, t_environmentId = ''env1'',
            t_attributes = [(''email'', ''a@x.com''), (''userId'', ''u1'')]\<rparr>,
          \<lparr>t_id = 3, t_environmentId = ''env1'',
            t_attributes = [(''email'', ''b@x.com''), (''userId'', ''u1'')]\<rparr>],
      \<lparr>contact = [\<lparr>c_id = 2, c_environmentId = ''env1''\<rparr>, \<lparr>c_id = 3, c_environmentId = ''env1''\<rparr>],
       contactAttributeKey =
        [\<lparr>k_id = 0, k_key = ''email'', k_name = ''email'', k_environmentId = ''env1''\<rparr>,
         \<lparr>k_id = 1, k_key = ''userId'', k_name = ''userId'', k_environmentId = ''env1''\<rparr>],
       contactAttribute =
        [\<lparr>a_contactId = 2, a_attributeKeyId = 0, a_value = ''a@x.com''\<rparr>,
         \<lparr>a_contactId = 2, a_attributeKeyId = 1, a_value = ''u1''\<rparr>,
         \<lparr>a_contactId = 3, a_attributeKeyId = 0, a_value = ''b@x.com''\<rparr>,
         \<lparr>a_contactId = 3, a_attributeKeyId = 1, a_value = ''u1''\<rparr>],
       nextId = 4\<rparr>)"
    by code_simp
  have run2: "createContactsFromCSV anySchemas [[(''email'', ''b@x.com''), (''userId'', '''')]] ''env1''
     Update [] emptyUserIdStore =
     (Inr [\<lparr>t_id = 3, t_environmentId = ''env1'',
            t_attributes = [(''email'', ''b@x.com''), (''userId'', '''')]\<rparr>],
      \<lparr>contact = [\<lparr>c_id = 2, c_environmentId = ''env1''\<rparr>, \<lparr>c_id = 3, c_environmentId = ''env1''\<rparr>],
       contactAttributeKey =
        [\<lparr>k_id = 0, k_key = ''email'', k_name = ''email'', k_environmentId = ''env1''\<rparr>,
         \<lparr>k_id = 1, k_key = ''userId'', k_name = ''userId'', k_environmentId = ''env1''\<rparr>],
       contactAttribute =
        [\<lparr>a_contactId = 2, a_attributeKeyId = 0, a_value = ''a@x.com''\<rparr>,
         \<lparr>a_contactId = 2, a_attributeKeyId = 1, a_value = ''''\<rparr>,
         \<lparr>a_contactId = 3, a_attributeKeyId = 0, a_value = ''b@x.com''\<rparr>,
         \<lparr>a_contactId = 3, a_attributeKeyId = 1, a_value = ''''\<rparr>],
       nextId = 4\<rparr>)"
    by code_simp
  have c1: "uniqueUserIds emptyStore ''env1''"
    by (simp add: uniqueUserIds_def userIdRows_def emptyStore_def)
  have c2: "fst (createContactsFromCSV anySchemas
     [[(''email'', ''a@x.com''), (''userId'', ''u1'')], [(''email'', ''b@x.com''), (''userId'', ''u1'')]]
     ''env1'' Update [] emptyStore) =
     Inr [\<lparr>t_id = 2, t_environmentId = ''env1'',
            t_attributes = [(''email'', ''a@x.com''), (''userId'', ''u1'')]\<rparr>,
          \<lparr>t_id = 3, t_environmentId = ''env1'',
            t_attributes = [(''email'', ''b@x.com''), (''userId'', ''u1'')]\<rparr>]"
    by (simp only: run1 fst_conv)
  have c3: "\<not> uniqueUserIds
     (snd (createContactsFromCSV anySchemas
        [[(''email'', ''a@x.com''), (''userId'', ''u1'')], [(''email'', ''b@x.com''), (''userId'', ''u1'')]]
        ''env1'' Update [] emptyStore)) ''env1''"
    unfolding run1 snd_conv
    by (simp add: uniqueUserIds_def userIdRows_def hasKeyIn_def attributeKeyOf_def)
  have c4: "uniqueUserIds emptyUserIdStore ''env1''"
    by (simp add: uniqueUserIds_def userIdRows_def hasKeyIn_def attributeKeyOf_def emptyUserIdStore_def)
  have c5: "fst (createContactsFromCSV anySchemas [[(''email'', ''b@x.com''), (''userId'', '''')]] ''env1''
     Update [] emptyUserIdStore) =
     Inr [\<lparr>t_id = 3, t_environmentId = ''env1'',
            t_attributes = [(''email'', ''b@x.com''), (''userId'', '''')]\<rparr>]"
    by (simp only: run2 fst_conv)
  have c6: "\<not> uniqueUserIds
     (snd (createContactsFromCSV anySchemas [[(''email'', ''b@x.com''), (''userId'', '''')]] ''env1'' Update []
        emptyUserIdStore)) ''env1''"
    unfolding run2 snd_conv
    by (simp add: uniqueUserIds_def userIdRows_def hasKeyIn_def attributeKeyOf_def)
  from c1 c2 c3 c4 c5 c6 show ?thesis by (intro conjI)
qed







end
